theory Spec2Isabelle
  imports Main "HOL-Library.Word" "HOL-Library.Multiset" "HOL-Library.Sublist"
begin

unbundle bit_operations_syntax

section \<open>Data model (huffman.h)\<close>

type_synonym byte = "8 word"
type_synonym u32 = "32 word"

text \<open>
  A value of this type is a \<^verbatim>\<open>HuffmanNode*\<close>: \<open>NULL\<close> is the null pointer, \<open>Node\<close> a pointer
  to an allocated struct with its four fields.  Nodes are never mutated after they have been
  linked into a tree, so a pointer is modelled by the value it points to.  \<^verbatim>\<open>malloc\<close> is
  assumed to succeed.
\<close>

datatype HuffmanNode =
    NULL
  | Node (character: byte) (frequency: u32) (left: HuffmanNode) (right: HuffmanNode)

definition createNode :: "byte \<Rightarrow> u32 \<Rightarrow> HuffmanNode" where
  "createNode c f = Node c f NULL NULL"

text \<open>
  The heap array: \<open>nodes\<close> holds the slots \<open>0 ..< size\<close> of \<^verbatim>\<open>heap->nodes\<close> (the slots from
  \<open>size\<close> up to \<open>capacity\<close> are never read by the code), so \<^verbatim>\<open>heap->size\<close> is the length of
  the list.
\<close>

record MinHeap =
  capacity :: nat
  nodes :: "HuffmanNode list"

abbreviation size_heap :: "MinHeap \<Rightarrow> nat" where
  "size_heap heap \<equiv> length (nodes heap)"

definition ASCII_SIZE :: nat where
  "ASCII_SIZE = 256"

definition MAGIC_NUMBER :: u32 where
  "MAGIC_NUMBER = 0x48554646"

section \<open>Min-heap operations\<close>

definition createMinHeap :: "nat \<Rightarrow> MinHeap" where
  "createMinHeap cap = \<lparr>capacity = cap, nodes = []\<rparr>"

text \<open>The choice of \<^verbatim>\<open>smallest\<close> among \<open>index\<close> and its two children, with strict comparisons.\<close>

definition smallest_of :: "HuffmanNode list \<Rightarrow> nat \<Rightarrow> nat" where
  "smallest_of ns index =
     (let smallest = index;
          l = 2 * index + 1;
          r = 2 * index + 2;
          smallest = (if l < length ns \<and> frequency (ns ! l) < frequency (ns ! smallest)
                      then l else smallest);
          smallest = (if r < length ns \<and> frequency (ns ! r) < frequency (ns ! smallest)
                      then r else smallest)
      in smallest)"

lemma smallest_of_cases:
  "smallest_of ns i = i \<or>
   (smallest_of ns i = 2 * i + 1 \<and> 2 * i + 1 < length ns) \<or>
   (smallest_of ns i = 2 * i + 2 \<and> 2 * i + 2 < length ns)"
  by (simp add: smallest_of_def Let_def)

function minHeapify :: "MinHeap \<Rightarrow> nat \<Rightarrow> MinHeap" where
  "minHeapify heap index =
     (let smallest = smallest_of (nodes heap) index
      in if smallest \<noteq> index
         then minHeapify
                (heap\<lparr>nodes := (nodes heap)[smallest := nodes heap ! index,
                                              index := nodes heap ! smallest]\<rparr>)
                smallest
         else heap)"
  by pat_completeness auto
termination
proof (relation "measure (\<lambda>(heap, index). size_heap heap - index)")
  show "wf (measure (\<lambda>(heap, index). size_heap heap - index))" by simp
next
  fix heap :: MinHeap and index x :: nat
  assume "x = smallest_of (nodes heap) index" and "x \<noteq> index"
  with smallest_of_cases [of "nodes heap" index]
  show "((heap\<lparr>nodes := (nodes heap)[x := nodes heap ! index, index := nodes heap ! x]\<rparr>, x),
         (heap, index)) \<in> measure (\<lambda>(heap, index). size_heap heap - index)"
    by auto
qed

declare minHeapify.simps [simp del]

text \<open>\<^verbatim>\<open>extractMin\<close> returns the extracted pointer and the heap it leaves.\<close>

definition extractMin :: "MinHeap \<Rightarrow> HuffmanNode \<times> MinHeap" where
  "extractMin heap =
     (if size_heap heap \<le> 0 then (NULL, heap)
      else
        let root = nodes heap ! 0;
            ns = (nodes heap)[0 := nodes heap ! (size_heap heap - 1)];
            heap = heap\<lparr>nodes := take (size_heap heap - 1) ns\<rparr>
        in (root, if size_heap heap > 0 then minHeapify heap 0 else heap))"

text \<open>The sift-up loop of \<^verbatim>\<open>insertMinHeap\<close>: slot \<open>i\<close> is the hole the new node moves up through.\<close>

function siftUp :: "HuffmanNode list \<Rightarrow> nat \<Rightarrow> HuffmanNode \<Rightarrow> HuffmanNode list" where
  "siftUp ns i node =
     (if i \<noteq> 0 \<and> frequency node < frequency (ns ! ((i - 1) div 2))
      then siftUp (ns[i := ns ! ((i - 1) div 2)]) ((i - 1) div 2) node
      else ns[i := node])"
  by pat_completeness auto
termination
  by (relation "measure (\<lambda>(ns, i, node). i)") auto

declare siftUp.simps [simp del]

text \<open>
  \<^verbatim>\<open>heap->size++\<close> makes slot \<open>size\<close> part of the heap; its old content is overwritten before it
  is read, so the model appends the new node there as a placeholder.
\<close>

definition insertMinHeap :: "MinHeap \<Rightarrow> HuffmanNode \<Rightarrow> MinHeap" where
  "insertMinHeap heap node =
     (if size_heap heap \<ge> capacity heap then heap
      else heap\<lparr>nodes := siftUp (nodes heap @ [node]) (size_heap heap) node\<rparr>)"

definition isHeapEmpty :: "MinHeap \<Rightarrow> bool" where
  "isHeapEmpty heap = (size_heap heap = 0)"


lemma length_minHeapify [simp]: "size_heap (minHeapify heap index) = size_heap heap"
proof (induction heap index rule: minHeapify.induct)
  case (1 heap index)
  show ?case
  proof (cases "smallest_of (nodes heap) index = index")
    case True
    then show ?thesis by (subst minHeapify.simps) simp
  next
    case False
    with "1.IH" [OF refl False] show ?thesis
      by (subst minHeapify.simps) (simp add: Let_def)
  qed
qed

lemma length_siftUp [simp]: "length (siftUp ns i node) = length ns"
proof (induction ns i node rule: siftUp.induct)
  case (1 ns i node)
  then show ?case by (subst siftUp.simps) simp
qed

lemma size_extractMin:
  "extractMin heap = (n, heap') \<Longrightarrow> size_heap heap' = size_heap heap - 1"
  by (auto simp: extractMin_def Let_def split: if_splits)

lemma size_insertMinHeap: "size_heap (insertMinHeap heap n) \<le> Suc (size_heap heap)"
  by (simp add: insertMinHeap_def)

section \<open>Frequency calculation\<close>

text \<open>
  \<^verbatim>\<open>unsigned int frequencies[ASCII_SIZE]\<close> is a table indexed by the byte value.  The C \<^verbatim>\<open>int\<close> is
  a 32-bit word read with \<open>sint\<close>; incrementing it wraps around, as \<^verbatim>\<open>unsigned int\<close> does.
  A file is the list of its bytes; opening an existing file is assumed to succeed.
\<close>

type_synonym freq_table = "byte \<Rightarrow> u32"
type_synonym c_int = "32 word"

datatype error =
    EmptyInput            \<comment> \<open>"Input file is empty"\<close>
  | NegativeSize          \<comment> \<open>\<^verbatim>\<open>calculateFrequencies\<close> returned a negative \<^verbatim>\<open>int\<close>\<close>
  | TreeBuildFailed       \<comment> \<open>"Failed to build Huffman tree" / "Failed to rebuild Huffman tree"\<close>
  | HeaderTruncated       \<comment> \<open>one of the \<^verbatim>\<open>fread\<close>s of \<^verbatim>\<open>readFileHeader\<close> failed\<close>
  | MagicMismatch         \<comment> \<open>"Invalid file format (magic number mismatch)"\<close>
  | FrequenciesEOF        \<comment> \<open>"Unexpected end of file while reading frequencies"\<close>
  | FrequenciesTruncated  \<comment> \<open>"Failed to read frequency data"\<close>
  | NullPointerDereference \<comment> \<open>a field of a null node was read: the call does not return\<close>

fun countLoop :: "byte list \<Rightarrow> freq_table \<times> c_int \<Rightarrow> freq_table \<times> c_int" where
  "countLoop [] (frequencies, fileSize) = (frequencies, fileSize)"
| "countLoop (ch # file) (frequencies, fileSize) =
     countLoop file (frequencies(ch := frequencies ch + 1), fileSize + 1)"

definition calculateFrequencies :: "byte list \<Rightarrow> error + (freq_table \<times> c_int)" where
  "calculateFrequencies file =
     (let (frequencies, fileSize) = countLoop file (\<lambda>_. 0, 0)
      in if fileSize = 0 then Inl EmptyInput else Inr (frequencies, fileSize))"

section \<open>Huffman tree construction\<close>

definition countUnique :: "freq_table \<Rightarrow> nat" where
  "countUnique frequencies =
     foldl (\<lambda>uniqueChars i. if frequencies (of_nat i) > 0 then uniqueChars + 1 else uniqueChars)
       0 [0..<ASCII_SIZE]"

definition populate :: "freq_table \<Rightarrow> MinHeap \<Rightarrow> MinHeap" where
  "populate frequencies heap =
     foldl (\<lambda>heap i. if frequencies (of_nat i) > 0
                      then insertMinHeap heap (createNode (of_nat i) (frequencies (of_nat i)))
                      else heap)
       heap [0..<ASCII_SIZE]"

function mergeLoop :: "MinHeap \<Rightarrow> HuffmanNode" where
  "mergeLoop heap =
     (if size_heap heap > 1 then
        (case extractMin heap of (l, heap1) \<Rightarrow>
         case extractMin heap1 of (r, heap2) \<Rightarrow>
           if l = NULL \<or> r = NULL then NULL
           else mergeLoop (insertMinHeap heap2 (Node 0 (frequency l + frequency r) l r)))
      else fst (extractMin heap))"
  by pat_completeness auto
termination
proof (relation "measure size_heap")
  show "wf (measure size_heap)" by simp
next
  fix heap l heap1 r heap2
  assume "1 < size_heap heap" and a: "(l, heap1) = extractMin heap"
    and b: "(r, heap2) = extractMin heap1"
  have "size_heap heap2 = size_heap heap - 2"
    using size_extractMin [OF a [symmetric]] size_extractMin [OF b [symmetric]] by simp
  with \<open>1 < size_heap heap\<close>
    size_insertMinHeap [of heap2 "Node 0 (frequency l + frequency r) l r"]
  show "(insertMinHeap heap2 (Node 0 (frequency l + frequency r) l r), heap) \<in> measure size_heap"
    by simp
qed

declare mergeLoop.simps [simp del]

definition buildHuffmanTree :: "freq_table \<Rightarrow> HuffmanNode" where
  "buildHuffmanTree frequencies =
     (let uniqueChars = countUnique frequencies
      in if uniqueChars = 0 then NULL
         else
           case (if uniqueChars = 1
                 then List.find (\<lambda>i. frequencies (of_nat i) > 0) [0..<ASCII_SIZE]
                 else None) of
             Some i \<Rightarrow> Node 0 (frequencies (of_nat i))
                         (createNode (of_nat i) (frequencies (of_nat i))) NULL
           | None \<Rightarrow> mergeLoop (populate frequencies (createMinHeap uniqueChars)))"

section \<open>Code generation\<close>

text \<open>
  A code table entry: the characters of \<^verbatim>\<open>code\<close> before the terminating NUL, and \<^verbatim>\<open>length\<close>.
  In \<open>generateCodes\<close> the argument \<open>currentCode\<close> is the part of the buffer below \<open>depth\<close>;
  writing \<^verbatim>\<open>currentCode[depth]\<close> extends it by one character.
\<close>

record CodeEntry =
  code :: string
  clength :: nat

type_synonym code_table = "byte \<Rightarrow> CodeEntry"

fun generateCodes :: "HuffmanNode \<Rightarrow> code_table \<Rightarrow> string \<Rightarrow> nat \<Rightarrow> code_table" where
  "generateCodes NULL codes currentCode depth = codes"
| "generateCodes (Node c f l r) codes currentCode depth =
     (if l = NULL \<and> r = NULL
      then codes(c := \<lparr>code = take depth currentCode, clength = depth\<rparr>)
      else
        let codes = (if l \<noteq> NULL
                     then generateCodes l codes (take depth currentCode @ ''0'') (depth + 1)
                     else codes);
            codes = (if r \<noteq> NULL
                     then generateCodes r codes (take depth currentCode @ ''1'') (depth + 1)
                     else codes)
        in codes)"

definition buildCodeTable :: "HuffmanNode \<Rightarrow> code_table" where
  "buildCodeTable root =
     (let codes = (\<lambda>_. \<lparr>code = [], clength = 0\<rparr>)
      in case root of
           NULL \<Rightarrow> codes
         | Node c f l r \<Rightarrow>
             if l = NULL \<and> r = NULL then codes(c := \<lparr>code = ''0'', clength = 1\<rparr>)
             else generateCodes root codes [] 0)"

section \<open>Bit operations\<close>

text \<open>
  An output \<^verbatim>\<open>FILE*\<close> is the list of bytes written so far, an input \<^verbatim>\<open>FILE*\<close> the list of bytes
  not yet read.  A bit is a \<open>bool\<close>: the only values the code passes are 0 and 1.
  \<open>readBit\<close> returns \<open>None\<close> where the C function returns -1.
\<close>

record BitBuffer =
  buffer :: byte
  bitCount :: nat

definition writeBit :: "byte list \<times> BitBuffer \<Rightarrow> bool \<Rightarrow> byte list \<times> BitBuffer" where
  "writeBit st b =
     (case st of (file, bitBuffer) \<Rightarrow>
        let bitBuffer = bitBuffer\<lparr>buffer := push_bit 1 (buffer bitBuffer) OR of_bool b\<rparr>;
            bitBuffer = bitBuffer\<lparr>bitCount := bitCount bitBuffer + 1\<rparr>
        in if bitCount bitBuffer = 8
           then (file @ [buffer bitBuffer], bitBuffer\<lparr>buffer := 0, bitCount := 0\<rparr>)
           else (file, bitBuffer))"

definition flushBits :: "byte list \<times> BitBuffer \<Rightarrow> byte list" where
  "flushBits st =
     (case st of (file, bitBuffer) \<Rightarrow>
        if bitCount bitBuffer > 0
        then file @ [push_bit (8 - bitCount bitBuffer) (buffer bitBuffer)]
        else file)"

type_synonym bit_reader = "byte list \<times> byte \<times> nat"

definition readBit :: "bit_reader \<Rightarrow> (bool \<times> bit_reader) option" where
  "readBit rd =
     (case rd of (file, currentByte, bitPosition) \<Rightarrow>
        case (if bitPosition = 0
              then (case file of [] \<Rightarrow> None | ch # file' \<Rightarrow> Some (file', ch, 8))
              else Some (file, currentByte, bitPosition)) of
          None \<Rightarrow> None
        | Some (file, currentByte, bitPosition) \<Rightarrow>
            let bitPosition = bitPosition - 1
            in Some (drop_bit bitPosition currentByte AND 1 = 1,
                     (file, currentByte, bitPosition)))"

section \<open>Container format\<close>

text \<open>
  \<^verbatim>\<open>fwrite\<close> and \<^verbatim>\<open>fread\<close> of a 4-byte integer, in the byte order of a little-endian host.
\<close>

definition u32_bytes :: "u32 \<Rightarrow> byte list" where
  "u32_bytes w = [ucast w, ucast (drop_bit 8 w), ucast (drop_bit 16 w), ucast (drop_bit 24 w)]"

definition fread_u32 :: "byte list \<Rightarrow> (u32 \<times> byte list) option" where
  "fread_u32 file =
     (case file of
        b0 # b1 # b2 # b3 # file' \<Rightarrow>
          Some (ucast b0 OR push_bit 8 (ucast b1) OR push_bit 16 (ucast b2)
                  OR push_bit 24 (ucast b3), file')
      | _ \<Rightarrow> None)"

record FileHeader =
  magic :: u32
  original_size :: u32
  compressed_size :: u32
  frequency_count :: u32
  padding_bits :: byte

definition header_bytes :: "FileHeader \<Rightarrow> byte list" where
  "header_bytes header =
     u32_bytes (magic header) @ u32_bytes (original_size header)
     @ u32_bytes (compressed_size header) @ u32_bytes (frequency_count header)
     @ [padding_bits header]"

definition writeFileHeader :: "byte list \<Rightarrow> FileHeader \<Rightarrow> byte list" where
  "writeFileHeader file header = file @ header_bytes header"

text \<open>\<^verbatim>\<open>fseek(outFile, 0, SEEK_SET)\<close> followed by \<^verbatim>\<open>writeFileHeader\<close>: the bytes at the start are replaced.\<close>

definition rewriteFileHeader :: "byte list \<Rightarrow> FileHeader \<Rightarrow> byte list" where
  "rewriteFileHeader file header =
     header_bytes header @ drop (length (header_bytes header)) file"

definition writeFrequencies :: "byte list \<Rightarrow> freq_table \<Rightarrow> byte list" where
  "writeFrequencies file frequencies =
     foldl (\<lambda>file i. if frequencies (of_nat i) > 0
                      then file @ [of_nat i] @ u32_bytes (frequencies (of_nat i))
                      else file)
       file [0..<ASCII_SIZE]"

section \<open>Compression\<close>

definition writeCode :: "byte list \<times> BitBuffer \<Rightarrow> CodeEntry \<Rightarrow> byte list \<times> BitBuffer" where
  "writeCode st entry =
     foldl (\<lambda>st i. writeBit st (code entry ! i = CHR ''1'')) st [0..<clength entry]"

fun encodeLoop :: "byte list \<Rightarrow> code_table \<Rightarrow> byte list \<times> BitBuffer \<Rightarrow> byte list \<times> BitBuffer" where
  "encodeLoop [] codes st = st"
| "encodeLoop (ch # inputFile) codes st =
     (if clength (codes ch) = 0 then encodeLoop inputFile codes st
      else encodeLoop inputFile codes (writeCode st (codes ch)))"

definition encodeAndWrite :: "byte list \<Rightarrow> byte list \<Rightarrow> code_table \<Rightarrow> byte list" where
  "encodeAndWrite inputFile outputFile codes =
     flushBits (encodeLoop inputFile codes (outputFile, \<lparr>buffer = 0, bitCount = 0\<rparr>))"

text \<open>
  The result of \<open>compressFile\<close> and \<open>decompressFile\<close>: what the call returns (\<open>Inl e\<close> for -1
  after the failure \<open>e\<close>, \<open>Inr\<close> for 0) and the output file (\<open>None\<close> when it was never opened).
\<close>

definition compressFile :: "byte list \<Rightarrow> (error + unit) \<times> byte list option" where
  "compressFile inputFile =
     (case calculateFrequencies inputFile of
        Inl e \<Rightarrow> (Inl e, None)
      | Inr (frequencies, originalSize) \<Rightarrow>
          if sint originalSize < 0 then (Inl NegativeSize, None)
          else
            let root = buildHuffmanTree frequencies
            in if root = NULL then (Inl TreeBuildFailed, None)
               else
                 let codes = buildCodeTable root;
                     frequencyCount =
                       foldl (\<lambda>n i. if frequencies (of_nat i) > 0 then n + 1 else n)
                         (0 :: u32) [0..<ASCII_SIZE];
                     header = \<lparr>magic = MAGIC_NUMBER, original_size = originalSize,
                               compressed_size = 0, frequency_count = frequencyCount,
                               padding_bits = 0\<rparr>;
                     outFile = writeFileHeader [] header;
                     outFile = writeFrequencies outFile frequencies;
                     dataStart = length outFile;
                     outFile = encodeAndWrite inputFile outFile codes;
                     dataEnd = length outFile;
                     header = header\<lparr>compressed_size := of_nat (dataEnd - dataStart)\<rparr>;
                     outFile = rewriteFileHeader outFile header
                 in (Inr (), Some outFile))"

section \<open>Decompression\<close>

definition readFileHeader :: "byte list \<Rightarrow> error + (FileHeader \<times> byte list)" where
  "readFileHeader file =
     (case fread_u32 file of None \<Rightarrow> Inl HeaderTruncated | Some (m, file) \<Rightarrow>
      case fread_u32 file of None \<Rightarrow> Inl HeaderTruncated | Some (osz, file) \<Rightarrow>
      case fread_u32 file of None \<Rightarrow> Inl HeaderTruncated | Some (csz, file) \<Rightarrow>
      case fread_u32 file of None \<Rightarrow> Inl HeaderTruncated | Some (cnt, file) \<Rightarrow>
      case file of [] \<Rightarrow> Inl HeaderTruncated | pad # file \<Rightarrow>
        if m \<noteq> MAGIC_NUMBER then Inl MagicMismatch
        else Inr (\<lparr>magic = m, original_size = osz, compressed_size = csz,
                   frequency_count = cnt, padding_bits = pad\<rparr>, file))"

fun readFreqLoop :: "nat \<Rightarrow> byte list \<Rightarrow> freq_table \<Rightarrow> error + (freq_table \<times> byte list)" where
  "readFreqLoop 0 file frequencies = Inr (frequencies, file)"
| "readFreqLoop (Suc n) file frequencies =
     (case file of
        [] \<Rightarrow> Inl FrequenciesEOF
      | ch # file \<Rightarrow>
          (case fread_u32 file of
             None \<Rightarrow> Inl FrequenciesTruncated
           | Some (v, file) \<Rightarrow> readFreqLoop n file (frequencies(ch := v))))"

text \<open>
  \<open>cnt\<close> is the C \<^verbatim>\<open>int count\<close>: the loop \<^verbatim>\<open>for (i = 0; i < count; i++)\<close> runs \<open>nat cnt\<close> times.
\<close>

definition readFrequencies :: "byte list \<Rightarrow> int \<Rightarrow> error + (freq_table \<times> byte list)" where
  "readFrequencies file cnt = readFreqLoop (nat cnt) file (\<lambda>_. 0)"

text \<open>Why \<open>decodeAndWrite\<close> stopped.\<close>

datatype decode_end =
    NoRoot            \<comment> \<open>\<^verbatim>\<open>if (!root) return;\<close>\<close>
  | SizeReached       \<comment> \<open>\<^verbatim>\<open>decodedBytes < originalSize\<close> became false\<close>
  | EndOfStream       \<comment> \<open>\<^verbatim>\<open>readBit\<close> returned -1\<close>
  | InvalidSequence   \<comment> \<open>"Invalid bit sequence encountered during decoding"\<close>
  | NullDereference   \<comment> \<open>\<^verbatim>\<open>currentNode->left\<close> was evaluated with \<^verbatim>\<open>currentNode\<close> null\<close>

definition bits_left :: "bit_reader \<Rightarrow> nat" where
  "bits_left rd = (case rd of (file, currentByte, bitPosition) \<Rightarrow> 8 * length file + bitPosition)"

lemma readBit_bits_left: "readBit rd = Some (b, rd') \<Longrightarrow> bits_left rd' < bits_left rd"
  by (auto simp: readBit_def bits_left_def Let_def split: prod.splits if_splits list.splits)

function decodeLoop ::
  "HuffmanNode \<Rightarrow> u32 \<Rightarrow> HuffmanNode \<Rightarrow> bit_reader \<Rightarrow> u32 \<Rightarrow> byte list \<Rightarrow> decode_end \<times> byte list"
where
  "decodeLoop root originalSize currentNode rd decodedBytes outputFile =
     (if decodedBytes < originalSize then
        (case readBit rd of
           None \<Rightarrow> (EndOfStream, outputFile)
         | Some (b, rd') \<Rightarrow>
             (case currentNode of
                NULL \<Rightarrow> (NullDereference, outputFile)
              | Node _ _ l r \<Rightarrow>
                  (case (if \<not> b then l else r) of
                     NULL \<Rightarrow> (NullDereference, outputFile)
                   | Node c f l' r' \<Rightarrow>
                       if l' = NULL \<and> r' = NULL
                       then (if root = NULL then (InvalidSequence, outputFile @ [c])
                             else decodeLoop root originalSize root rd' (decodedBytes + 1)
                                    (outputFile @ [c]))
                       else decodeLoop root originalSize (Node c f l' r') rd' decodedBytes
                              outputFile)))
      else (SizeReached, outputFile))"
  by pat_completeness auto
termination
  by (relation "measure (\<lambda>(root, originalSize, currentNode, rd, decodedBytes, outputFile).
                           bits_left rd)")
     (auto dest: readBit_bits_left)

declare decodeLoop.simps [simp del]

definition decodeAndWrite ::
  "byte list \<Rightarrow> byte list \<Rightarrow> HuffmanNode \<Rightarrow> u32 \<Rightarrow> int \<Rightarrow> decode_end \<times> byte list" where
  "decodeAndWrite inputFile outputFile root originalSize paddingBits =
     (if root = NULL then (NoRoot, outputFile)
      else decodeLoop root originalSize root (inputFile, 0, 0) 0 outputFile)"

text \<open>
  When \<open>decodeAndWrite\<close> reads a field of a null node the process is killed: \<open>decompressFile\<close>
  does not return and \<^verbatim>\<open>fclose\<close> is not reached.  The result \<open>Inl NullPointerDereference\<close> stands
  for this; the list beside it holds the bytes that had been passed to \<^verbatim>\<open>fputc\<close>, of which the
  file on disk has only the part that the C library had flushed by then.
\<close>

definition decompressFile :: "byte list \<Rightarrow> (error + decode_end) \<times> byte list option" where
  "decompressFile inputFile =
     (case readFileHeader inputFile of
        Inl e \<Rightarrow> (Inl e, None)
      | Inr (header, inFile) \<Rightarrow>
          (case readFrequencies inFile (sint (frequency_count header)) of
             Inl e \<Rightarrow> (Inl e, None)
           | Inr (frequencies, inFile) \<Rightarrow>
               let root = buildHuffmanTree frequencies
               in if root = NULL then (Inl TreeBuildFailed, None)
                  else
                    case decodeAndWrite inFile [] root (original_size header)
                           (uint (padding_bits header)) of
                      (NullDereference, outFile) \<Rightarrow> (Inl NullPointerDereference, Some outFile)
                    | (stop, outFile) \<Rightarrow> (Inr stop, Some outFile)))"

section \<open>Notions used in the proofs\<close>

text \<open>
  None of the definitions of this section is part of the program: they describe its data for
  the lemmas that follow.
\<close>

text \<open>The symbols with a nonzero count, in the order in which the loops over \<open>0 ..< 256\<close> meet them.\<close>

definition symbols_present :: "freq_table \<Rightarrow> byte list" where
  "symbols_present f = filter (\<lambda>c. f c > 0) (map of_nat [0..<ASCII_SIZE])"

text \<open>Index \<open>i\<close> holds the earliest element of \<open>xs\<close> among those of minimum frequency.\<close>

definition earliest_min :: "HuffmanNode list \<Rightarrow> nat \<Rightarrow> bool" where
  "earliest_min xs i \<longleftrightarrow>
     i < length xs \<and> (\<forall>j<length xs. frequency (xs ! i) \<le> frequency (xs ! j))
     \<and> (\<forall>j<i. frequency (xs ! i) < frequency (xs ! j))"

text \<open>The array is a heap: no node weighs less than its parent, the node at \<open>(j - 1) div 2\<close>.\<close>

definition heap_ordered :: "HuffmanNode list \<Rightarrow> bool" where
  "heap_ordered ns \<longleftrightarrow>
     (\<forall>j<length ns. 0 < j \<longrightarrow> frequency (ns ! ((j - 1) div 2)) \<le> frequency (ns ! j))"

text \<open>
  A history of the queue: the calls made on a heap, in order.  \<open>heap_calls\<close> is the heap they
  leave; \<open>relabel g\<close> replaces the node of every insertion by its image under \<open>g\<close>.
\<close>

datatype heap_call = Insert HuffmanNode | ExtractMin

fun heap_calls :: "MinHeap \<Rightarrow> heap_call list \<Rightarrow> MinHeap" where
  "heap_calls heap [] = heap"
| "heap_calls heap (Insert node # calls) = heap_calls (insertMinHeap heap node) calls"
| "heap_calls heap (ExtractMin # calls) = heap_calls (snd (extractMin heap)) calls"

fun relabel :: "(HuffmanNode \<Rightarrow> HuffmanNode) \<Rightarrow> heap_call \<Rightarrow> heap_call" where
  "relabel g (Insert node) = Insert (g node)"
| "relabel g ExtractMin = ExtractMin"

text \<open>The symbols at the leaves of a tree, from left to right.\<close>

fun leaf_chars :: "HuffmanNode \<Rightarrow> byte list" where
  "leaf_chars NULL = []"
| "leaf_chars (Node c f l r) = (if l = NULL \<and> r = NULL then [c] else leaf_chars l @ leaf_chars r)"

text \<open>A tree in which every node is a leaf or has two children.\<close>

fun full_tree :: "HuffmanNode \<Rightarrow> bool" where
  "full_tree NULL = False"
| "full_tree (Node c f l r) = ((l = NULL \<and> r = NULL) \<or> (full_tree l \<and> full_tree r))"

definition heap_chars :: "HuffmanNode list \<Rightarrow> byte multiset" where
  "heap_chars ns = (\<Sum>t\<in>#mset ns. mset (leaf_chars t))"

text \<open>The (symbol, code) pairs in the order in which \<open>generateCodes\<close> stores them.\<close>

fun code_list :: "HuffmanNode \<Rightarrow> string \<Rightarrow> (byte \<times> string) list" where
  "code_list NULL p = []"
| "code_list (Node c f l r) p =
     (if l = NULL \<and> r = NULL then [(c, p)]
      else code_list l (p @ ''0'') @ code_list r (p @ ''1''))"

definition store_codes :: "code_table \<Rightarrow> (byte \<times> string) list \<Rightarrow> code_table" where
  "store_codes codes cl =
     foldl (\<lambda>codes (c, s). codes(c := \<lparr>code = s, clength = length s\<rparr>)) codes cl"

text \<open>The bits of a byte, most significant first.\<close>

definition byte_bits :: "byte \<Rightarrow> bool list" where
  "byte_bits b = map (bit b) (rev [0..<8])"

text \<open>The bits a reader has still to deliver, and the bits a writer has accepted so far.\<close>

definition stream :: "bit_reader \<Rightarrow> bool list" where
  "stream rd = (case rd of (file, currentByte, bitPosition) \<Rightarrow>
     map (bit currentByte) (rev [0..<bitPosition]) @ concat (map byte_bits file))"

definition written :: "byte list \<times> BitBuffer \<Rightarrow> bool list" where
  "written st = (case st of (file, bitBuffer) \<Rightarrow>
     concat (map byte_bits file) @ map (bit (buffer bitBuffer)) (rev [0..<bitCount bitBuffer]))"

text \<open>The bits that \<open>encodeAndWrite\<close> pushes for one code table entry.\<close>

definition code_bits :: "CodeEntry \<Rightarrow> bool list" where
  "code_bits e = map (\<lambda>i. code e ! i = CHR ''1'') [0..<clength e]"

definition string_bits :: "string \<Rightarrow> bool list" where
  "string_bits s = map (\<lambda>ch. ch = CHR ''1'') s"

text \<open>The archive that \<open>compressFile\<close> writes once the frequency pass has succeeded.\<close>

definition archive_of :: "byte list \<Rightarrow> freq_table \<Rightarrow> byte list" where
  "archive_of x f =
     (let payload = encodeAndWrite x [] (buildCodeTable (buildHuffmanTree f))
      in header_bytes \<lparr>magic = MAGIC_NUMBER, original_size = of_nat (length x),
                        compressed_size = of_nat (length payload),
                        frequency_count = of_nat (countUnique f), padding_bits = 0\<rparr>
         @ writeFrequencies [] f @ payload)"

section \<open>Integers on disk\<close>

lemma fread_u32_bytes: "fread_u32 (u32_bytes w @ file) = Some (w, file)"
proof -
  have "ucast (ucast w :: byte) OR push_bit 8 (ucast (ucast (drop_bit 8 w) :: byte))
        OR push_bit 16 (ucast (ucast (drop_bit 16 w) :: byte))
        OR push_bit 24 (ucast (ucast (drop_bit 24 w) :: byte)) = w"
  proof (rule bit_word_eqI)
    fix n assume "n < LENGTH(32)"
    then consider "n < 8" | "8 \<le> n" "n < 16" | "16 \<le> n" "n < 24" | "24 \<le> n" "n < 32"
      by fastforce
    then show "bit (ucast (ucast w :: byte) OR push_bit 8 (ucast (ucast (drop_bit 8 w) :: byte))
        OR push_bit 16 (ucast (ucast (drop_bit 16 w) :: byte))
        OR push_bit 24 (ucast (ucast (drop_bit 24 w) :: byte)) :: u32) n = bit w n"
      by cases (auto simp: bit_simps)
  qed
  then show ?thesis by (simp add: fread_u32_def u32_bytes_def)
qed

lemma u32_bytes_assemble:
  fixes b0 b1 b2 b3 :: byte
  shows "u32_bytes (ucast b0 OR push_bit 8 (ucast b1) OR push_bit 16 (ucast b2)
                  OR push_bit 24 (ucast b3)) = [b0, b1, b2, b3]"
  unfolding u32_bytes_def list.inject
  apply (intro conjI refl)
     apply (rule bit_word_eqI; auto simp: bit_simps dest: bit_imp_le_length)+
  done

lemma fread_u32_Some: "fread_u32 f = Some (w, file) \<Longrightarrow> f = u32_bytes w @ file"
  by (auto simp: fread_u32_def u32_bytes_assemble split: list.splits)

lemma fread_u32_None: "fread_u32 f = None \<longleftrightarrow> length f < 4"
  by (auto simp: fread_u32_def split: list.splits)

lemma length_u32_bytes [simp]: "length (u32_bytes w) = 4"
  by (simp add: u32_bytes_def)

lemma length_header_bytes [simp]: "length (header_bytes h) = 17"
  by (simp add: header_bytes_def)

lemma unat_inc_less:
  fixes a b :: "'a::len word"
  assumes "a < b"
  shows "unat (a + 1) = unat a + 1"
proof -
  have "unat a < unat b" using assms by (simp add: word_less_nat_alt)
  moreover have "unat b < 2 ^ LENGTH('a)" by (rule unsigned_less)
  ultimately have "unat a + 1 < 2 ^ LENGTH('a)" by linarith
  then have "unat a + unat (1 :: 'a word) < 2 ^ LENGTH('a)" by simp
  then show ?thesis using unat_add_lem [of a 1] by simp
qed

section \<open>Reading the header\<close>

lemma readFileHeader_header_bytes:
  "readFileHeader (header_bytes h @ file) =
     (if magic h \<noteq> MAGIC_NUMBER then Inl MagicMismatch else Inr (h, file))"
  by (simp add: readFileHeader_def header_bytes_def fread_u32_bytes)

lemma readFileHeader_short: "length f < 17 \<Longrightarrow> readFileHeader f = Inl HeaderTruncated"
  by (auto simp: readFileHeader_def split: option.splits list.splits dest!: fread_u32_Some)

lemma readFileHeader_magic:
  assumes "take 4 f \<noteq> u32_bytes MAGIC_NUMBER" and "\<not> length f < 17"
  shows "readFileHeader f = Inl MagicMismatch"
proof -
  from assms(2) have "fread_u32 f \<noteq> None" by (simp add: fread_u32_None)
  then obtain m f1 where m: "fread_u32 f = Some (m, f1)" by auto
  then have f: "f = u32_bytes m @ f1" by (rule fread_u32_Some)
  with assms(1) have "m \<noteq> MAGIC_NUMBER" by auto
  from f assms(2) have "\<not> length f1 < 4" by simp
  then obtain a f2 where a: "fread_u32 f1 = Some (a, f2)" using fread_u32_None [of f1] by auto
  from fread_u32_Some [OF a] f assms(2) have "\<not> length f2 < 4" by simp
  then obtain b f3 where b: "fread_u32 f2 = Some (b, f3)" using fread_u32_None [of f2] by auto
  from fread_u32_Some [OF a] fread_u32_Some [OF b] f assms(2) have "\<not> length f3 < 4" by simp
  then obtain c f4 where c: "fread_u32 f3 = Some (c, f4)" using fread_u32_None [of f3] by auto
  from fread_u32_Some [OF a] fread_u32_Some [OF b] fread_u32_Some [OF c] f assms(2)
  have "f4 \<noteq> []" by auto
  then obtain p f5 where "f4 = p # f5" by (cases f4) auto
  with m a b c \<open>m \<noteq> MAGIC_NUMBER\<close> show ?thesis by (simp add: readFileHeader_def)
qed

section \<open>Error paths of the two entry points\<close>

text \<open>
  Claim C7.  Compressing a zero-length input fails with the empty-input error, and the output
  file is never opened: no header, frequency table or payload byte is written.
\<close>

theorem compressFile_empty_input: "compressFile [] = (Inl EmptyInput, None)"
  by (simp add: compressFile_def calculateFrequencies_def)

text \<open>
  Claim C9.  When the first four bytes of the input are not the magic constant,
  \<open>decompressFile\<close> returns a format error (the header is too short to be read, or the magic
  number does not match) and the output file is never opened.
\<close>

theorem decompressFile_bad_magic:
  assumes "take 4 inputFile \<noteq> u32_bytes MAGIC_NUMBER"
  shows "decompressFile inputFile =
           (Inl (if length inputFile < 17 then HeaderTruncated else MagicMismatch), None)"
proof (cases "length inputFile < 17")
  case True
  then show ?thesis by (simp add: decompressFile_def readFileHeader_short)
next
  case False
  with assms show ?thesis by (simp add: decompressFile_def readFileHeader_magic)
qed

theorem decompressFile_bad_magic_witness:
  "take 4 [71, 70, 85, 72, 8, 0, 0, 0, 1, 0, 0, 0, 1, 0, 0, 0, 0, 65, 8, 0, 0, 0, 0]
     \<noteq> u32_bytes MAGIC_NUMBER
   \<and> decompressFile [71, 70, 85, 72, 8, 0, 0, 0, 1, 0, 0, 0, 1, 0, 0, 0, 0, 65, 8, 0, 0, 0, 0]
       = (Inl MagicMismatch, None)"
proof -
  have h: "take 4 [71, 70, 85, 72, 8, 0, 0, 0, 1, 0, 0, 0, 1, 0, 0, 0, 0, 65, 8, 0, 0, 0, 0 :: byte]
     \<noteq> u32_bytes MAGIC_NUMBER"
    by (simp add: u32_bytes_def MAGIC_NUMBER_def)
  show ?thesis using h decompressFile_bad_magic [OF h] by simp
qed

section \<open>The decoding loop\<close>


lemma decodeLoop_never_InvalidSequence:
  "root \<noteq> NULL \<Longrightarrow> fst (decodeLoop root osz cur rd dec out) \<noteq> InvalidSequence"
proof (induction root osz cur rd dec out rule: decodeLoop.induct)
  case (1 root osz cur rd dec out)
  then show ?case
    by (subst decodeLoop.simps) (auto split: option.splits HuffmanNode.splits)
qed



text \<open>
  Claim C3.  A descent step to a null child is not caught: \<^verbatim>\<open>currentNode->left\<close> is evaluated
  before the test \<^verbatim>\<open>if (!currentNode)\<close>.  With the tree of a one-symbol table (the root has no
  right child) and a payload whose first bit is 1, the step reads a field of the null node; the
  diagnostic branch of the loop is never taken, whatever the input.
\<close>

theorem decodeAndWrite_null_child:
  "buildHuffmanTree ((\<lambda>_. 0)(65 := 1)) = Node 0 1 (Node 65 1 NULL NULL) NULL
   \<and> decodeAndWrite [0x80] [] (Node 0 1 (Node 65 1 NULL NULL) NULL) 1 0 = (NullDereference, [])
   \<and> decompressFile [70, 70, 85, 72, 1, 0, 0, 0, 1, 0, 0, 0, 1, 0, 0, 0, 0, 65, 1, 0, 0, 0, 0x80]
       = (Inl NullPointerDereference, Some [])
   \<and> fst (decodeAndWrite inFile out root originalSize paddingBits) \<noteq> InvalidSequence"
proof -
  have "fst (decodeAndWrite inFile out root originalSize paddingBits) \<noteq> InvalidSequence"
    by (simp add: decodeAndWrite_def decodeLoop_never_InvalidSequence)
  moreover have "buildHuffmanTree ((\<lambda>_. 0)(65 := 1)) = Node 0 1 (Node 65 1 NULL NULL) NULL"
    by code_simp
  moreover have "decodeAndWrite [0x80] [] (Node 0 1 (Node 65 1 NULL NULL) NULL) 1 0
                   = (NullDereference, [])"
    by code_simp
  moreover have "decompressFile
      [70, 70, 85, 72, 1, 0, 0, 0, 1, 0, 0, 0, 1, 0, 0, 0, 0, 65, 1, 0, 0, 0, 0x80]
       = (Inl NullPointerDereference, Some [])"
    by code_simp
  ultimately show ?thesis by blast
qed

section \<open>The padding field\<close>

lemma compressFile_header:
  assumes "compressFile inputFile = (r, Some outFile)"
  shows "\<exists>h rest. outFile = header_bytes h @ rest \<and> padding_bits h = 0"
proof -
  from assms obtain fl h where "outFile = rewriteFileHeader fl h" and "padding_bits h = 0"
    by (auto simp: compressFile_def Let_def split: sum.splits prod.splits if_splits)
  then show ?thesis by (auto simp: rewriteFileHeader_def)
qed

text \<open>
  Claim C4.  The header that \<open>compressFile\<close> writes always carries \<open>padding_bits = 0\<close>, and
  decoding does not depend on the field: \<open>decodeAndWrite\<close> ignores its \<open>paddingBits\<close> argument,
  and two archives that differ only in the padding byte decompress to the same result.
\<close>

theorem padding_bits_unused:
  "(compressFile inputFile = (r, Some outFile) \<longrightarrow>
      (\<exists>h rest. outFile = header_bytes h @ rest \<and> padding_bits h = 0))
   \<and> decodeAndWrite inFile out root originalSize b = decodeAndWrite inFile out root originalSize b'
   \<and> decompressFile (header_bytes (h\<lparr>padding_bits := p\<rparr>) @ file)
       = decompressFile (header_bytes (h\<lparr>padding_bits := p'\<rparr>) @ file)"
proof (intro conjI impI)
  assume "compressFile inputFile = (r, Some outFile)"
  then show "\<exists>h rest. outFile = header_bytes h @ rest \<and> padding_bits h = 0"
    by (rule compressFile_header)
next
  show "decodeAndWrite inFile out root originalSize b = decodeAndWrite inFile out root originalSize b'"
    by (simp add: decodeAndWrite_def)
next
  show "decompressFile (header_bytes (h\<lparr>padding_bits := p\<rparr>) @ file)
       = decompressFile (header_bytes (h\<lparr>padding_bits := p'\<rparr>) @ file)"
    by (simp add: decompressFile_def readFileHeader_header_bytes decodeAndWrite_def Let_def
          split: sum.split prod.split)
qed

theorem padding_bits_unused_witness:
  "compressFile [65] =
     (Inr (), Some [70, 70, 85, 72, 1, 0, 0, 0, 1, 0, 0, 0, 1, 0, 0, 0, 0, 65, 1, 0, 0, 0, 0])
   \<and> (\<exists>h rest. [70, 70, 85, 72, 1, 0, 0, 0, 1, 0, 0, 0, 1, 0, 0, 0, 0, 65, 1, 0, 0, 0, 0]
                  = header_bytes h @ rest \<and> padding_bits h = 0)"
proof -
  have c: "compressFile [65] =
     (Inr (), Some [70, 70, 85, 72, 1, 0, 0, 0, 1, 0, 0, 0, 1, 0, 0, 0, 0, 65, 1, 0, 0, 0, 0])"
    by code_simp
  with padding_bits_unused [of "[65]" "Inr ()"
      "[70, 70, 85, 72, 1, 0, 0, 0, 1, 0, 0, 0, 1, 0, 0, 0, 0, 65, 1, 0, 0, 0, 0]"]
  show ?thesis by blast
qed

section \<open>The frequency table on disk\<close>

lemma foldl_write_entries:
  "foldl (\<lambda>file i. if f (of_nat i) > (0 :: u32)
                    then file @ [of_nat i] @ u32_bytes (f (of_nat i)) else file) file0 ns
   = file0 @ concat (map (\<lambda>c. c # u32_bytes (f c)) (filter (\<lambda>c. f c > 0) (map of_nat ns)))"
  by (induction ns arbitrary: file0) auto

lemma writeFrequencies_entries:
  "writeFrequencies file f = file @ concat (map (\<lambda>c. c # u32_bytes (f c)) (symbols_present f))"
  by (simp add: writeFrequencies_def symbols_present_def foldl_write_entries)

lemma foldl_count_present:
  "foldl (\<lambda>n i. if f (of_nat i) > (0 :: u32) then n + 1 else n) n0 ns
   = n0 + length (filter (\<lambda>c. f c > 0) (map of_nat ns :: byte list))"
  by (induction ns arbitrary: n0) auto

lemma countUnique_present: "countUnique f = length (symbols_present f)"
  by (simp add: countUnique_def symbols_present_def foldl_count_present)

lemma byte_in_symbols: "(c :: byte) \<in> set (map of_nat [0..<ASCII_SIZE])"
proof -
  have "unat c < 256" using unsigned_less [of c] by simp
  moreover have "c = of_nat (unat c)" by simp
  ultimately show ?thesis unfolding ASCII_SIZE_def set_map set_upt
    by (metis atLeastLessThan_iff image_eqI zero_le)
qed

lemma set_symbols_present: "set (symbols_present f) = {c. f c \<noteq> 0}"
  using byte_in_symbols by (auto simp: symbols_present_def word_greater_zero_iff)

lemma symbols_ascending: "sorted_wrt (<) (map of_nat [0..<ASCII_SIZE] :: byte list)"
proof -
  have "(of_nat i :: byte) < of_nat j" if "i < j" "j < 256" for i j :: nat
    using that by (simp add: word_less_nat_alt unat_of_nat)
  then show ?thesis
    by (auto simp: sorted_wrt_iff_nth_less ASCII_SIZE_def)
qed

lemma symbols_present_ascending: "sorted_wrt (<) (symbols_present f)"
  unfolding symbols_present_def by (rule sorted_wrt_filter) (rule symbols_ascending)

lemma readFreqLoop_entries:
  "readFreqLoop (length cs) (concat (map (\<lambda>c. c # u32_bytes (f c)) cs) @ rest) g
   = Inr (\<lambda>c. if c \<in> set cs then f c else g c, rest)"
proof (induction cs arbitrary: g)
  case Nil
  then show ?case by simp
next
  case (Cons c cs)
  have "readFreqLoop (length (c # cs))
          (concat (map (\<lambda>c. c # u32_bytes (f c)) (c # cs)) @ rest) g
        = readFreqLoop (length cs) (concat (map (\<lambda>c. c # u32_bytes (f c)) cs) @ rest)
            (g(c := f c))"
    by (simp add: fread_u32_bytes)
  also have "\<dots> = Inr (\<lambda>x. if x \<in> set cs then f x else (g(c := f c)) x, rest)"
    by (rule Cons)
  also have "(\<lambda>x. if x \<in> set cs then f x else (g(c := f c)) x)
             = (\<lambda>x. if x \<in> set (c # cs) then f x else g x)"
    by auto
  finally show ?case .
qed

text \<open>
  Claim C8.  Writing a frequency table with \<open>writeFrequencies\<close> and reading it back with
  \<open>readFrequencies\<close>, given the number of nonzero entries, returns the original table (every
  count, hence the set of present symbols) and leaves the rest of the file; the pairs are
  written in strictly ascending symbol order, one for each symbol with a nonzero count.
\<close>

theorem frequency_table_roundtrip:
  "readFrequencies (writeFrequencies [] frequencies @ rest) (int (countUnique frequencies))
     = Inr (frequencies, rest)
   \<and> (\<exists>syms. writeFrequencies [] frequencies
                 = concat (map (\<lambda>c. c # u32_bytes (frequencies c)) syms)
             \<and> sorted_wrt (<) syms \<and> set syms = {c. frequencies c \<noteq> 0}
             \<and> length syms = countUnique frequencies)"
proof
  have "(\<lambda>c. if c \<in> set (symbols_present frequencies) then frequencies c else 0) = frequencies"
    by (auto simp: set_symbols_present)
  then show "readFrequencies (writeFrequencies [] frequencies @ rest)
               (int (countUnique frequencies)) = Inr (frequencies, rest)"
    by (simp add: readFrequencies_def writeFrequencies_entries countUnique_present
          readFreqLoop_entries)
  show "\<exists>syms. writeFrequencies [] frequencies
                 = concat (map (\<lambda>c. c # u32_bytes (frequencies c)) syms)
             \<and> sorted_wrt (<) syms \<and> set syms = {c. frequencies c \<noteq> 0}
             \<and> length syms = countUnique frequencies"
    using writeFrequencies_entries [of "[]" frequencies] symbols_present_ascending
      set_symbols_present countUnique_present
    by (intro exI [of _ "symbols_present frequencies"]) simp
qed

section \<open>The heap as a priority queue\<close>

lemma mset_update_twice:
  assumes "i < length ns" "p < length ns"
  shows "mset (ns[i := ns ! p, p := v]) = mset (ns[i := v])"
proof (cases "i = p")
  case True
  then show ?thesis by simp
next
  case False
  with assms show ?thesis
    by (simp add: mset_update nth_list_update)
qed

lemma mset_siftUp: "i < length ns \<Longrightarrow> mset (siftUp ns i v) = mset (ns[i := v])"
proof (induction ns i v rule: siftUp.induct)
  case (1 ns i node)
  show ?case
  proof (cases "i \<noteq> 0 \<and> frequency node < frequency (ns ! ((i - 1) div 2))")
    case True
    then have p: "(i - 1) div 2 < length ns" using "1.prems" by simp
    have "mset (siftUp ns i node)
          = mset (siftUp (ns[i := ns ! ((i - 1) div 2)]) ((i - 1) div 2) node)"
      using True by (subst siftUp.simps) simp
    also have "\<dots> = mset (ns[i := ns ! ((i - 1) div 2), (i - 1) div 2 := node])"
      using "1.IH" [OF True] p by simp
    also have "\<dots> = mset (ns[i := node])"
      using "1.prems" p by (rule mset_update_twice)
    finally show ?thesis .
  next
    case False
    then show ?thesis by (subst siftUp.simps) auto
  qed
qed

lemma siftUp_root_keep:
  "0 < i \<Longrightarrow> \<not> frequency v < frequency (ns ! 0) \<Longrightarrow> siftUp ns i v ! 0 = ns ! 0"
proof (induction ns i v rule: siftUp.induct)
  case (1 ns i node)
  show ?case
  proof (cases "i \<noteq> 0 \<and> frequency node < frequency (ns ! ((i - 1) div 2))")
    case True
    with "1.prems" have p: "0 < (i - 1) div 2" by (cases "(i - 1) div 2 = 0") auto
    have "siftUp ns i node ! 0 = siftUp (ns[i := ns ! ((i - 1) div 2)]) ((i - 1) div 2) node ! 0"
      using True by (subst siftUp.simps) simp
    also have "\<dots> = ns[i := ns ! ((i - 1) div 2)] ! 0"
      using "1.IH" [OF True p] "1.prems" by simp
    finally show ?thesis using "1.prems" by simp
  next
    case False
    then show ?thesis using "1.prems" by (subst siftUp.simps) auto
  qed
qed

lemma siftUp_root_new:
  "i < length ns \<Longrightarrow> frequency v < frequency (ns ! 0)
   \<Longrightarrow> (\<forall>j<length ns. j \<noteq> i \<longrightarrow> frequency (ns ! 0) \<le> frequency (ns ! j))
   \<Longrightarrow> siftUp ns i v ! 0 = v"
proof (induction ns i v rule: siftUp.induct)
  case (1 ns i node)
  show ?case
  proof (cases "i = 0")
    case True
    then show ?thesis using "1.prems" by (subst siftUp.simps) simp
  next
    case False
    let ?p = "(i - 1) div 2"
    from False have pi: "?p < i" by simp
    with "1.prems" have "frequency (ns ! 0) \<le> frequency (ns ! ?p)" by simp
    with "1.prems"(2) have lt: "frequency node < frequency (ns ! ?p)" by simp
    let ?ns = "ns[i := ns ! ?p]"
    have a: "?p < length ?ns" using pi "1.prems"(1) by simp
    have b: "frequency node < frequency (?ns ! 0)" using False "1.prems"(2) by simp
    have c: "\<forall>j<length ?ns. j \<noteq> ?p \<longrightarrow> frequency (?ns ! 0) \<le> frequency (?ns ! j)"
    proof (intro allI impI)
      fix j assume j: "j < length ?ns" "j \<noteq> ?p"
      show "frequency (?ns ! 0) \<le> frequency (?ns ! j)"
      proof (cases "j = i")
        case True
        with False "1.prems"(1) \<open>frequency (ns ! 0) \<le> frequency (ns ! ?p)\<close> show ?thesis by simp
      next
        case ji: False
        with False j "1.prems"(3) show ?thesis by simp
      qed
    qed
    have "siftUp ns i node = siftUp ?ns ?p node"
      using False lt by (subst siftUp.simps) simp
    with "1.IH" [OF _ a b c] False lt show ?thesis by simp
  qed
qed

lemma earliest_min_snoc_keep:
  assumes "earliest_min xs i" "\<not> frequency x < frequency (xs ! i)"
  shows "earliest_min (xs @ [x]) i"
  using assms by (auto simp: earliest_min_def nth_append less_Suc_eq)

lemma earliest_min_snoc_new:
  assumes "earliest_min xs i" "frequency x < frequency (xs ! i)"
  shows "earliest_min (xs @ [x]) (length xs)"
proof -
  have "frequency x < frequency (xs ! j)" if "j < length xs" for j
    using assms that unfolding earliest_min_def by (meson less_le_trans)
  then show ?thesis
    by (auto simp: earliest_min_def nth_append less_Suc_eq intro: order.strict_implies_order)
qed

lemma insertMinHeap_nodes:
  "size_heap heap < capacity heap \<Longrightarrow>
   nodes (insertMinHeap heap x) = siftUp (nodes heap @ [x]) (size_heap heap) x"
  by (simp add: insertMinHeap_def)

lemma mset_insertMinHeap:
  "size_heap heap < capacity heap \<Longrightarrow>
   mset (nodes (insertMinHeap heap x)) = add_mset x (mset (nodes heap))"
  by (simp add: insertMinHeap_nodes mset_siftUp)

lemma capacity_insertMinHeap [simp]: "capacity (insertMinHeap heap x) = capacity heap"
  by (simp add: insertMinHeap_def)

lemma insert_all_invariant:
  assumes "length xs \<le> cap"
  shows "capacity (foldl insertMinHeap (createMinHeap cap) xs) = cap
         \<and> mset (nodes (foldl insertMinHeap (createMinHeap cap) xs)) = mset xs
         \<and> (xs \<noteq> [] \<longrightarrow>
              (\<exists>i. earliest_min xs i \<and> nodes (foldl insertMinHeap (createMinHeap cap) xs) ! 0 = xs ! i))"
  using assms
proof (induction xs rule: rev_induct)
  case Nil
  then show ?case by (simp add: createMinHeap_def)
next
  case (snoc x xs)
  let ?H = "foldl insertMinHeap (createMinHeap cap) xs"
  from snoc.prems have len: "length xs < cap" by simp
  with snoc.IH have cap: "capacity ?H = cap" and ms: "mset (nodes ?H) = mset xs"
    and root: "xs \<noteq> [] \<Longrightarrow> \<exists>i. earliest_min xs i \<and> nodes ?H ! 0 = xs ! i"
    by auto
  from ms have sz: "size_heap ?H = length xs" by (rule mset_eq_length)
  with len cap have room: "size_heap ?H < capacity ?H" by simp
  have ns: "nodes (insertMinHeap ?H x) = siftUp (nodes ?H @ [x]) (length xs) x"
    using insertMinHeap_nodes [OF room] sz by simp
  have "\<exists>i. earliest_min (xs @ [x]) i \<and> nodes (insertMinHeap ?H x) ! 0 = (xs @ [x]) ! i"
  proof (cases "xs = []")
    case True
    with sz have "nodes ?H = []" by simp
    with True ns have "nodes (insertMinHeap ?H x) = [x]"
      by (simp add: siftUp.simps [of "[x]" 0])
    with True show ?thesis by (intro exI [of _ 0]) (simp add: earliest_min_def)
  next
    case False
    with root obtain i where i: "earliest_min xs i" "nodes ?H ! 0 = xs ! i" by blast
    from False sz have pos: "0 < length xs" "nodes ?H \<noteq> []" by auto
    then have r0: "(nodes ?H @ [x]) ! 0 = xs ! i" using i(2) by (simp add: nth_append)
    show ?thesis
    proof (cases "frequency x < frequency (xs ! i)")
      case True
      have "\<forall>j<length (nodes ?H @ [x]). j \<noteq> length xs \<longrightarrow>
              frequency ((nodes ?H @ [x]) ! 0) \<le> frequency ((nodes ?H @ [x]) ! j)"
      proof (intro allI impI)
        fix j assume "j < length (nodes ?H @ [x])" "j \<noteq> length xs"
        with sz have j: "j < length (nodes ?H)" by simp
        then have "nodes ?H ! j \<in># mset xs" using ms nth_mem_mset by metis
        then obtain k where "k < length xs" "xs ! k = nodes ?H ! j"
          by (auto simp: in_set_conv_nth)
        with i(1) have "frequency (xs ! i) \<le> frequency (nodes ?H ! j)"
          by (auto simp: earliest_min_def)
        with r0 j show "frequency ((nodes ?H @ [x]) ! 0) \<le> frequency ((nodes ?H @ [x]) ! j)"
          by (simp add: nth_append)
      qed
      with siftUp_root_new [of "length xs" "nodes ?H @ [x]" x] True r0 sz ns
      have "nodes (insertMinHeap ?H x) ! 0 = x" by simp
      with earliest_min_snoc_new [OF i(1) True] show ?thesis
        by (intro exI [of _ "length xs"]) simp
    next
      case False
      with siftUp_root_keep [of "length xs" x "nodes ?H @ [x]"] pos r0 ns
      have "nodes (insertMinHeap ?H x) ! 0 = xs ! i" by simp
      moreover from i(1) have "i < length xs" by (simp add: earliest_min_def)
      ultimately show ?thesis
        using earliest_min_snoc_keep [OF i(1) False]
        by (intro exI [of _ i]) (simp add: nth_append)
    qed
  qed
  with cap ms room show ?case by (simp add: mset_insertMinHeap)
qed

lemma fst_extractMin: "nodes heap \<noteq> [] \<Longrightarrow> fst (extractMin heap) = nodes heap ! 0"
  by (simp add: extractMin_def Let_def)

lemma mset_minHeapify:
  "index < size_heap heap \<Longrightarrow> mset (nodes (minHeapify heap index)) = mset (nodes heap)"
proof (induction heap index rule: minHeapify.induct)
  case (1 heap index)
  show ?case
  proof (cases "smallest_of (nodes heap) index = index")
    case True
    then show ?thesis by (subst minHeapify.simps) simp
  next
    case False
    let ?s = "smallest_of (nodes heap) index"
    from False smallest_of_cases [of "nodes heap" index] have s: "?s < size_heap heap" by auto
    let ?h = "heap\<lparr>nodes := (nodes heap)[?s := nodes heap ! index, index := nodes heap ! ?s]\<rparr>"
    have "mset (nodes (minHeapify heap index)) = mset (nodes (minHeapify ?h ?s))"
      using False by (subst minHeapify.simps) (simp add: Let_def)
    also have "\<dots> = mset (nodes ?h)" using "1.IH" [OF refl False] s by simp
    also have "\<dots> = mset (nodes heap)" using s "1.prems" by (simp add: mset_swap)
    finally show ?thesis .
  qed
qed

lemma capacity_minHeapify [simp]: "capacity (minHeapify heap index) = capacity heap"
proof (induction heap index rule: minHeapify.induct)
  case (1 heap index)
  show ?case
  proof (cases "smallest_of (nodes heap) index = index")
    case True
    then show ?thesis by (subst minHeapify.simps) simp
  next
    case False
    with "1.IH" [OF refl False] show ?thesis
      by (subst minHeapify.simps) (simp add: Let_def)
  qed
qed

lemma capacity_extractMin [simp]: "capacity (snd (extractMin heap)) = capacity heap"
  by (simp add: extractMin_def Let_def)

lemma mset_drop_root:
  assumes "ns \<noteq> []"
  shows "add_mset (ns ! 0) (mset (take (length ns - 1) (ns[0 := ns ! (length ns - 1)]))) = mset ns"
proof (cases ns)
  case Nil
  with assms show ?thesis by simp
next
  case (Cons a rest)
  show ?thesis
  proof (cases "rest = []")
    case True
    with Cons show ?thesis by simp
  next
    case False
    then have "rest = butlast rest @ [last rest]" by simp
    then have "mset rest = add_mset (last rest) (mset (butlast rest))"
      by (metis mset.simps(2) mset_append union_mset_add_mset_right add.right_neutral mset.simps(1))
    moreover have "ns ! (length ns - 1) = last rest"
      using Cons False by (simp add: last_conv_nth)
    moreover have "take (length ns - 1) (last rest # rest) = last rest # butlast rest"
      using Cons False by (cases rest) (simp_all add: butlast_conv_take)
    ultimately show ?thesis using Cons by simp
  qed
qed

lemma mset_extractMin:
  assumes "nodes heap \<noteq> []"
  shows "mset (nodes heap) = add_mset (fst (extractMin heap)) (mset (nodes (snd (extractMin heap))))"
proof -
  let ?ns = "take (size_heap heap - 1) ((nodes heap)[0 := nodes heap ! (size_heap heap - 1)])"
  have "mset (nodes (snd (extractMin heap))) = mset ?ns"
    using assms by (simp add: extractMin_def Let_def mset_minHeapify)
  moreover have "fst (extractMin heap) = nodes heap ! 0"
    using assms by (simp add: extractMin_def Let_def)
  ultimately show ?thesis using mset_drop_root [OF assms] by simp
qed

lemma heap_ordered_root:
  assumes "heap_ordered ns" and "j < length ns"
  shows "frequency (ns ! 0) \<le> frequency (ns ! j)"
  using assms(2)
proof (induction j rule: less_induct)
  case (less j)
  show ?case
  proof (cases "j = 0")
    case True
    then show ?thesis by simp
  next
    case False
    then have p: "(j - 1) div 2 < j" by simp
    with less.prems have "(j - 1) div 2 < length ns" by simp
    from less.IH [OF p this] have "frequency (ns ! 0) \<le> frequency (ns ! ((j - 1) div 2))" .
    moreover from assms(1) less.prems False
    have "frequency (ns ! ((j - 1) div 2)) \<le> frequency (ns ! j)"
      by (simp add: heap_ordered_def)
    ultimately show ?thesis by (rule order_trans)
  qed
qed

lemma child_cases:
  "0 < (j :: nat) \<Longrightarrow> (j - 1) div 2 = i \<longleftrightarrow> j = 2 * i + 1 \<or> j = 2 * i + 2"
  by presburger

lemma smallest_of_spec:
  "(smallest_of ns i \<noteq> i \<longrightarrow> frequency (ns ! smallest_of ns i) < frequency (ns ! i))
   \<and> (2 * i + 1 < length ns \<longrightarrow> frequency (ns ! smallest_of ns i) \<le> frequency (ns ! (2 * i + 1)))
   \<and> (2 * i + 2 < length ns \<longrightarrow> frequency (ns ! smallest_of ns i) \<le> frequency (ns ! (2 * i + 2)))"
  by (auto simp: smallest_of_def Let_def)


lemma heap_ordered_siftUp:
  assumes "i < length ns"
    and "\<forall>j<length ns. 0 < j \<longrightarrow> j \<noteq> i \<longrightarrow> (j - 1) div 2 \<noteq> i
           \<longrightarrow> frequency (ns ! ((j - 1) div 2)) \<le> frequency (ns ! j)"
    and "\<forall>j<length ns. 0 < j \<longrightarrow> (j - 1) div 2 = i
           \<longrightarrow> frequency v \<le> frequency (ns ! j)
               \<and> (0 < i \<longrightarrow> frequency (ns ! ((i - 1) div 2)) \<le> frequency (ns ! j))"
  shows "heap_ordered (siftUp ns i v)"
  using assms
proof (induction ns i v rule: siftUp.induct)
  case (1 ns i node)
  let ?p = "(i - 1) div 2"
  note len = "1.prems"(1)
  have a: "frequency (ns ! ((j - 1) div 2)) \<le> frequency (ns ! j)"
    if "j < length ns" "0 < j" "j \<noteq> i" "(j - 1) div 2 \<noteq> i" for j
    using "1.prems"(2) that by blast
  have b1: "frequency node \<le> frequency (ns ! j)"
    if "j < length ns" "0 < j" "(j - 1) div 2 = i" for j
    using "1.prems"(3) that by blast
  have b2: "frequency (ns ! ?p) \<le> frequency (ns ! j)"
    if "j < length ns" "0 < j" "(j - 1) div 2 = i" "0 < i" for j
    using "1.prems"(3) that by blast
  show ?case
  proof (cases "i \<noteq> 0 \<and> frequency node < frequency (ns ! ?p)")
    case True
    then have i0: "0 < i" and lt: "frequency node < frequency (ns ! ?p)" by simp_all
    from i0 have pi: "?p < i" by simp
    let ?ns = "ns[i := ns ! ?p]"
    have p: "?p < length ?ns" using pi len by simp
    have a': "\<forall>j<length ?ns. 0 < j \<longrightarrow> j \<noteq> ?p \<longrightarrow> (j - 1) div 2 \<noteq> ?p
                \<longrightarrow> frequency (?ns ! ((j - 1) div 2)) \<le> frequency (?ns ! j)"
    proof (intro allI impI)
      fix j assume j: "j < length ?ns" "0 < j" "j \<noteq> ?p" "(j - 1) div 2 \<noteq> ?p"
      then have ji: "j \<noteq> i" by auto
      show "frequency (?ns ! ((j - 1) div 2)) \<le> frequency (?ns ! j)"
      proof (cases "(j - 1) div 2 = i")
        case True
        with b2 [of j] j i0 have "frequency (ns ! ?p) \<le> frequency (ns ! j)" by simp
        with True ji len show ?thesis by simp
      next
        case False
        with a [of j] j ji have "frequency (ns ! ((j - 1) div 2)) \<le> frequency (ns ! j)" by simp
        with False ji show ?thesis by simp
      qed
    qed
    have b': "\<forall>j<length ?ns. 0 < j \<longrightarrow> (j - 1) div 2 = ?p
                \<longrightarrow> frequency node \<le> frequency (?ns ! j)
                    \<and> (0 < ?p \<longrightarrow> frequency (?ns ! ((?p - 1) div 2)) \<le> frequency (?ns ! j))"
    proof (intro allI impI)
      fix j assume j: "j < length ?ns" "0 < j" "(j - 1) div 2 = ?p"
      have up: "frequency (ns ! ((?p - 1) div 2)) \<le> frequency (ns ! ?p)" if "0 < ?p"
      proof -
        from that pi have "(?p - 1) div 2 \<noteq> i" by simp
        with a [of ?p] that pi len show ?thesis by simp
      qed
      have ppi: "(?p - 1) div 2 \<noteq> i" using pi by simp
      show "frequency node \<le> frequency (?ns ! j)
            \<and> (0 < ?p \<longrightarrow> frequency (?ns ! ((?p - 1) div 2)) \<le> frequency (?ns ! j))"
      proof (cases "j = i")
        case True
        with lt len up ppi show ?thesis by simp
      next
        case False
        from pi j(3) have "(j - 1) div 2 \<noteq> i" by simp
        with a [of j] j False have pj: "frequency (ns ! ?p) \<le> frequency (ns ! j)" by simp
        with lt have "frequency node \<le> frequency (ns ! j)" by simp
        moreover have "frequency (ns ! ((?p - 1) div 2)) \<le> frequency (ns ! j)" if "0 < ?p"
          using up [OF that] pj by (rule order_trans)
        ultimately show ?thesis using False ppi by simp
      qed
    qed
    have "siftUp ns i node = siftUp ?ns ?p node"
      using True by (subst siftUp.simps) simp
    with "1.IH" [OF True p a' b'] show ?thesis by simp
  next
    case False
    then have stop: "siftUp ns i node = ns[i := node]" by (subst siftUp.simps) auto
    have "frequency (ns[i := node] ! ((j - 1) div 2)) \<le> frequency (ns[i := node] ! j)"
      if j: "j < length ns" "0 < j" for j
    proof (cases "j = i")
      case True
      with j False have "frequency (ns ! ?p) \<le> frequency node" by simp
      moreover from True j have "?p \<noteq> i" by simp
      ultimately show ?thesis using True len by simp
    next
      case ji: False
      show ?thesis
      proof (cases "(j - 1) div 2 = i")
        case True
        with b1 [of j] j ji len show ?thesis by simp
      next
        case False
        with a [of j] j ji show ?thesis by simp
      qed
    qed
    then show ?thesis unfolding stop heap_ordered_def by simp
  qed
qed

lemma heap_ordered_minHeapify:
  assumes "index < size_heap heap"
    and "\<forall>j<length (nodes heap). 0 < j \<longrightarrow> (j - 1) div 2 \<noteq> index
           \<longrightarrow> frequency (nodes heap ! ((j - 1) div 2)) \<le> frequency (nodes heap ! j)"
    and "\<forall>j<length (nodes heap). 0 < j \<longrightarrow> (j - 1) div 2 = index \<longrightarrow> 0 < index
           \<longrightarrow> frequency (nodes heap ! ((index - 1) div 2)) \<le> frequency (nodes heap ! j)"
  shows "heap_ordered (nodes (minHeapify heap index))"
  using assms
proof (induction heap index rule: minHeapify.induct)
  case (1 heap index)
  let ?ns = "nodes heap"
  let ?s = "smallest_of ?ns index"
  note len = "1.prems"(1)
  have a: "frequency (?ns ! ((j - 1) div 2)) \<le> frequency (?ns ! j)"
    if "j < length ?ns" "0 < j" "(j - 1) div 2 \<noteq> index" for j
    using "1.prems"(2) that by blast
  have b: "frequency (?ns ! ((index - 1) div 2)) \<le> frequency (?ns ! j)"
    if "j < length ?ns" "0 < j" "(j - 1) div 2 = index" "0 < index" for j
    using "1.prems"(3) that by blast
  have least: "frequency (?ns ! ?s) \<le> frequency (?ns ! j)"
    if "j < length ?ns" "0 < j" "(j - 1) div 2 = index" for j
  proof -
    from that(3) have "j = 2 * index + 1 \<or> j = 2 * index + 2"
      unfolding child_cases [OF that(2)] .
    with that(1) smallest_of_spec [of ?ns index] show ?thesis by auto
  qed
  show ?case
  proof (cases "?s = index")
    case True
    then have stop: "minHeapify heap index = heap" by (subst minHeapify.simps) simp
    have "frequency (?ns ! ((j - 1) div 2)) \<le> frequency (?ns ! j)"
      if j: "j < length ?ns" "0 < j" for j
    proof (cases "(j - 1) div 2 = index")
      case p: True
      from least [OF j p] True p show ?thesis by simp
    next
      case False
      from a [OF j False] show ?thesis .
    qed
    then show ?thesis unfolding stop heap_ordered_def by simp
  next
    case False
    with smallest_of_cases [of ?ns index]
    have s: "?s < length ?ns" and child: "?s = 2 * index + 1 \<or> ?s = 2 * index + 2" by auto
    from child have s0: "0 < ?s" and ps: "(?s - 1) div 2 = index" and idx: "index < ?s"
      by auto
    from False smallest_of_spec [of ?ns index]
    have lt: "frequency (?ns ! ?s) < frequency (?ns ! index)" by simp
    let ?ns' = "?ns[?s := ?ns ! index, index := ?ns ! ?s]"
    let ?h = "heap\<lparr>nodes := ?ns'\<rparr>"
    have nth': "?ns' ! x = (if x = index then ?ns ! ?s else if x = ?s then ?ns ! index else ?ns ! x)"
      if "x < length ?ns" for x
      using that len s by (simp add: nth_list_update)
    have a': "\<forall>j<length (nodes ?h). 0 < j \<longrightarrow> (j - 1) div 2 \<noteq> ?s
                \<longrightarrow> frequency (nodes ?h ! ((j - 1) div 2)) \<le> frequency (nodes ?h ! j)"
    proof (intro allI impI)
      fix j assume "j < length (nodes ?h)" and j0: "0 < j" and pj: "(j - 1) div 2 \<noteq> ?s"
      then have j: "j < length ?ns" by simp
      from j0 have qj: "(j - 1) div 2 < j" by simp
      with j have q: "(j - 1) div 2 < length ?ns" by simp
      have "frequency (?ns' ! ((j - 1) div 2)) \<le> frequency (?ns' ! j)"
      proof (cases "(j - 1) div 2 = index")
        case True
        with qj have ji: "j \<noteq> index" by simp
        show ?thesis
        proof (cases "j = ?s")
          case js: True
          with lt True ji j q show ?thesis by (simp add: nth')
        next
          case js: False
          from least [OF j j0 True] True ji js j q show ?thesis by (simp add: nth')
        qed
      next
        case qi: False
        show ?thesis
        proof (cases "j = index")
          case True
          with j0 have i0: "0 < index" by simp
          from b [OF s s0 ps i0] True pj qi j q show ?thesis by (simp add: nth')
        next
          case ji: False
          from qi ps have js: "j \<noteq> ?s" by auto
          from a [OF j j0 qi] qi pj ji js j q show ?thesis by (simp add: nth')
        qed
      qed
      then show "frequency (nodes ?h ! ((j - 1) div 2)) \<le> frequency (nodes ?h ! j)" by simp
    qed
    have b': "\<forall>j<length (nodes ?h). 0 < j \<longrightarrow> (j - 1) div 2 = ?s \<longrightarrow> 0 < ?s
                \<longrightarrow> frequency (nodes ?h ! ((?s - 1) div 2)) \<le> frequency (nodes ?h ! j)"
    proof (intro allI impI)
      fix j assume "j < length (nodes ?h)" and j0: "0 < j" and pj: "(j - 1) div 2 = ?s"
      then have j: "j < length ?ns" by simp
      from j0 pj have sj: "?s < j" by simp
      with idx have ji: "j \<noteq> index" "j \<noteq> ?s" by simp_all
      from pj False have "(j - 1) div 2 \<noteq> index" by simp
      from a [OF j j0 this] pj have "frequency (?ns ! ?s) \<le> frequency (?ns ! j)" by simp
      with ji j len show "frequency (nodes ?h ! ((?s - 1) div 2)) \<le> frequency (nodes ?h ! j)"
        unfolding ps by (simp add: nth')
    qed
    have "minHeapify heap index = minHeapify ?h ?s"
      using False by (subst minHeapify.simps) (simp add: Let_def)
    moreover have "?s < size_heap ?h" using s by simp
    ultimately show ?thesis using "1.IH" [OF refl False _ a' b'] by simp
  qed
qed

lemma heap_ordered_insertMinHeap:
  assumes "heap_ordered (nodes heap)"
  shows "heap_ordered (nodes (insertMinHeap heap x))"
proof (cases "size_heap heap < capacity heap")
  case False
  with assms show ?thesis by (simp add: insertMinHeap_def)
next
  case True
  let ?ns = "nodes heap @ [x]"
  let ?i = "size_heap heap"
  have a: "\<forall>j<length ?ns. 0 < j \<longrightarrow> j \<noteq> ?i \<longrightarrow> (j - 1) div 2 \<noteq> ?i
             \<longrightarrow> frequency (?ns ! ((j - 1) div 2)) \<le> frequency (?ns ! j)"
  proof (intro allI impI)
    fix j assume "j < length ?ns" "0 < j" "j \<noteq> ?i"
    then have j: "j < size_heap heap" "0 < j" by simp_all
    then have "(j - 1) div 2 < size_heap heap" by simp
    with j assms show "frequency (?ns ! ((j - 1) div 2)) \<le> frequency (?ns ! j)"
      by (simp add: heap_ordered_def nth_append)
  qed
  have b: "\<forall>j<length ?ns. 0 < j \<longrightarrow> (j - 1) div 2 = ?i
             \<longrightarrow> frequency x \<le> frequency (?ns ! j)
                 \<and> (0 < ?i \<longrightarrow> frequency (?ns ! ((?i - 1) div 2)) \<le> frequency (?ns ! j))"
  proof (intro allI impI)
    fix j assume "j < length ?ns" "0 < j" "(j - 1) div 2 = ?i"
    then have False by simp
    then show "frequency x \<le> frequency (?ns ! j)
               \<and> (0 < ?i \<longrightarrow> frequency (?ns ! ((?i - 1) div 2)) \<le> frequency (?ns ! j))" ..
  qed
  have "?i < length ?ns" by simp
  from heap_ordered_siftUp [OF this a b] True show ?thesis
    by (simp add: insertMinHeap_nodes)
qed

lemma heap_ordered_extractMin:
  assumes "heap_ordered (nodes heap)"
  shows "heap_ordered (nodes (snd (extractMin heap)))"
proof (cases "size_heap heap \<le> 1")
  case True
  then have "nodes (snd (extractMin heap)) = []"
    by (cases "nodes heap") (simp_all add: extractMin_def Let_def)
  then show ?thesis by (simp add: heap_ordered_def)
next
  case False
  let ?ns = "take (size_heap heap - 1) ((nodes heap)[0 := nodes heap ! (size_heap heap - 1)])"
  let ?h = "heap\<lparr>nodes := ?ns\<rparr>"
  from False have "nodes heap \<noteq> []" "0 < size_heap heap - 1" by auto
  then have ex: "snd (extractMin heap) = minHeapify ?h 0"
    by (simp add: extractMin_def Let_def)
  have pos: "0 < size_heap ?h" using False by simp
  have a: "\<forall>j<length (nodes ?h). 0 < j \<longrightarrow> (j - 1) div 2 \<noteq> 0
             \<longrightarrow> frequency (nodes ?h ! ((j - 1) div 2)) \<le> frequency (nodes ?h ! j)"
  proof (intro allI impI)
    fix j assume "j < length (nodes ?h)" and j0: "0 < j" and p: "(j - 1) div 2 \<noteq> 0"
    then have j: "j < size_heap heap - 1" by simp
    with j0 have "(j - 1) div 2 < size_heap heap - 1" by simp
    with j j0 p assms
    show "frequency (nodes ?h ! ((j - 1) div 2)) \<le> frequency (nodes ?h ! j)"
      by (simp add: heap_ordered_def)
  qed
  have b: "\<forall>j<length (nodes ?h). 0 < j \<longrightarrow> (j - 1) div 2 = 0 \<longrightarrow> 0 < (0 :: nat)
             \<longrightarrow> frequency (nodes ?h ! ((0 - 1) div 2)) \<le> frequency (nodes ?h ! j)"
    by simp
  from heap_ordered_minHeapify [OF pos a b] show ?thesis unfolding ex .
qed

lemma heap_ordered_heap_calls:
  "heap_ordered (nodes heap) \<Longrightarrow> heap_ordered (nodes (heap_calls heap calls))"
proof (induction calls arbitrary: heap)
  case Nil
  then show ?case by simp
next
  case (Cons call calls)
  then show ?case
    by (cases call) (simp_all add: heap_ordered_insertMinHeap heap_ordered_extractMin)
qed

lemma extractMin_minimum:
  assumes "heap_ordered (nodes heap)" and "n \<in> set (nodes heap)"
  shows "frequency (fst (extractMin heap)) \<le> frequency n"
proof -
  from assms(2) obtain j where "j < size_heap heap" "nodes heap ! j = n"
    by (auto simp: in_set_conv_nth)
  with heap_ordered_root [OF assms(1), of j] have "frequency (nodes heap ! 0) \<le> frequency n"
    by simp
  moreover from assms(2) have "nodes heap \<noteq> []" by auto
  ultimately show ?thesis by (simp add: fst_extractMin)
qed

lemma siftUp_map:
  assumes "i < length ns" and "\<forall>n\<in>set ns. frequency (g n) = frequency n"
    and "frequency (g v) = frequency v"
  shows "siftUp (map g ns) i (g v) = map g (siftUp ns i v)"
  using assms
proof (induction ns i v rule: siftUp.induct)
  case (1 ns i node)
  let ?p = "(i - 1) div 2"
  from "1.prems"(1) have p: "?p < length ns" by simp
  with "1.prems"(2) have fp: "frequency (map g ns ! ?p) = frequency (ns ! ?p)" by simp
  show ?case
  proof (cases "i \<noteq> 0 \<and> frequency node < frequency (ns ! ?p)")
    case True
    let ?ns = "ns[i := ns ! ?p]"
    have "set ?ns \<subseteq> insert (ns ! ?p) (set ns)" by (rule set_update_subset_insert)
    with p have "set ?ns \<subseteq> set ns" by auto
    with "1.prems"(2) have pres: "\<forall>n\<in>set ?ns. frequency (g n) = frequency n" by blast
    have "siftUp (map g ns) i (g node) = siftUp ((map g ns)[i := map g ns ! ?p]) ?p (g node)"
      using True fp "1.prems"(3) by (subst siftUp.simps) simp
    also have "(map g ns)[i := map g ns ! ?p] = map g ?ns" using p by (simp add: map_update)
    also have "siftUp (map g ?ns) ?p (g node) = map g (siftUp ?ns ?p node)"
      using "1.IH" [OF True _ pres "1.prems"(3)] p by simp
    also have "siftUp ?ns ?p node = siftUp ns i node"
      using True by (subst (2) siftUp.simps) simp
    finally show ?thesis .
  next
    case False
    have "siftUp (map g ns) i (g node) = (map g ns)[i := g node]"
      using False fp "1.prems"(3) by (subst siftUp.simps) auto
    moreover have "siftUp ns i node = ns[i := node]"
      using False by (subst siftUp.simps) auto
    ultimately show ?thesis by (simp add: map_update)
  qed
qed

lemma smallest_of_map:
  assumes "index < length ns" and "\<forall>n\<in>set ns. frequency (g n) = frequency n"
  shows "smallest_of (map g ns) index = smallest_of ns index"
proof -
  have f: "frequency (map g ns ! j) = frequency (ns ! j)" if "j < length ns" for j
    using that assms(2) by simp
  show ?thesis
  proof (cases "2 * index + 1 < length ns")
    case l: True
    show ?thesis
    proof (cases "2 * index + 2 < length ns")
      case True
      with l assms(1) show ?thesis
        unfolding smallest_of_def Let_def by (simp only: f length_map split: if_splits) auto
    next
      case False
      with l assms(1) show ?thesis
        unfolding smallest_of_def Let_def by (simp only: f length_map split: if_splits) auto
    qed
  next
    case False
    then show ?thesis by (simp add: smallest_of_def Let_def)
  qed
qed

lemma minHeapify_map:
  assumes "index < size_heap heap" and "\<forall>n\<in>set (nodes heap). frequency (g n) = frequency n"
  shows "minHeapify (heap\<lparr>nodes := map g (nodes heap)\<rparr>) index
         = (minHeapify heap index)\<lparr>nodes := map g (nodes (minHeapify heap index))\<rparr>"
  using assms
proof (induction heap index rule: minHeapify.induct)
  case (1 heap index)
  let ?ns = "nodes heap"
  let ?s = "smallest_of ?ns index"
  have sm: "smallest_of (map g ?ns) index = ?s"
    using "1.prems" by (rule smallest_of_map)
  show ?case
  proof (cases "?s = index")
    case True
    then have "minHeapify heap index = heap" by (subst minHeapify.simps) simp
    moreover have "minHeapify (heap\<lparr>nodes := map g ?ns\<rparr>) index = heap\<lparr>nodes := map g ?ns\<rparr>"
      using True sm by (subst minHeapify.simps) simp
    ultimately show ?thesis by simp
  next
    case False
    with smallest_of_cases [of ?ns index] have s: "?s < length ?ns" by auto
    let ?ns' = "?ns[?s := ?ns ! index, index := ?ns ! ?s]"
    let ?h = "heap\<lparr>nodes := ?ns'\<rparr>"
    have "set ?ns' = set ?ns"
      using s "1.prems"(1) mset_swap [of index ?ns ?s] by (metis mset_eq_setD)
    with "1.prems"(2) have pres: "\<forall>n\<in>set (nodes ?h). frequency (g n) = frequency n" by simp
    have sz: "?s < size_heap ?h" using s by simp
    have swap: "(map g ?ns)[?s := map g ?ns ! index, index := map g ?ns ! ?s] = map g ?ns'"
      using s "1.prems"(1) by (simp add: map_update)
    have "minHeapify (heap\<lparr>nodes := map g ?ns\<rparr>) index
          = minHeapify (heap\<lparr>nodes := (map g ?ns)[?s := map g ?ns ! index,
                                                       index := map g ?ns ! ?s]\<rparr>) ?s"
      using False sm by (subst minHeapify.simps) (simp add: Let_def)
    also have "\<dots> = minHeapify (?h\<lparr>nodes := map g (nodes ?h)\<rparr>) ?s"
      unfolding swap by simp
    also have "\<dots> = (minHeapify ?h ?s)\<lparr>nodes := map g (nodes (minHeapify ?h ?s))\<rparr>"
      using "1.IH" [OF refl False sz pres] .
    also have "minHeapify ?h ?s = minHeapify heap index"
      using False by (subst (2) minHeapify.simps) (simp add: Let_def)
    finally show ?thesis .
  qed
qed

lemma insertMinHeap_map:
  assumes "\<forall>n\<in>set (nodes heap). frequency (g n) = frequency n"
    and "frequency (g x) = frequency x"
  shows "insertMinHeap (heap\<lparr>nodes := map g (nodes heap)\<rparr>) (g x)
         = (insertMinHeap heap x)\<lparr>nodes := map g (nodes (insertMinHeap heap x))\<rparr>"
proof (cases "size_heap heap < capacity heap")
  case False
  then show ?thesis by (simp add: insertMinHeap_def)
next
  case True
  have "siftUp (map g (nodes heap @ [x])) (size_heap heap) (g x)
        = map g (siftUp (nodes heap @ [x]) (size_heap heap) x)"
    using assms by (intro siftUp_map) auto
  with True show ?thesis by (simp add: insertMinHeap_def)
qed

lemma extractMin_map:
  assumes "nodes heap \<noteq> []" and "\<forall>n\<in>set (nodes heap). frequency (g n) = frequency n"
  shows "extractMin (heap\<lparr>nodes := map g (nodes heap)\<rparr>)
         = (g (fst (extractMin heap)),
            (snd (extractMin heap))\<lparr>nodes := map g (nodes (snd (extractMin heap)))\<rparr>)"
proof -
  let ?ns = "nodes heap"
  let ?ns' = "take (length ?ns - 1) (?ns[0 := ?ns ! (length ?ns - 1)])"
  let ?h = "heap\<lparr>nodes := ?ns'\<rparr>"
  from assms(1) have pos: "0 < length ?ns" by simp
  have moved: "take (length ?ns - 1) ((map g ?ns)[0 := map g ?ns ! (length ?ns - 1)])
               = map g ?ns'"
    using pos by (simp add: map_update [symmetric] take_map)
  have "set ?ns' \<subseteq> set (?ns[0 := ?ns ! (length ?ns - 1)])" by (rule set_take_subset)
  also have "\<dots> \<subseteq> insert (?ns ! (length ?ns - 1)) (set ?ns)" by (rule set_update_subset_insert)
  also have "\<dots> = set ?ns" using pos by auto
  finally have pres: "\<forall>n\<in>set (nodes ?h). frequency (g n) = frequency n"
    using assms(2) by auto
  show ?thesis
  proof (cases "0 < length ?ns - 1")
    case True
    then have "0 < size_heap ?h" by simp
    from minHeapify_map [OF this pres] True pos moved show ?thesis
      by (simp add: extractMin_def Let_def)
  next
    case False
    with pos moved show ?thesis by (simp add: extractMin_def Let_def)
  qed
qed

lemma set_insertMinHeap: "set (nodes (insertMinHeap heap x)) \<subseteq> insert x (set (nodes heap))"
proof (cases "size_heap heap < capacity heap")
  case True
  from mset_insertMinHeap [OF True, of x]
  have "set (nodes (insertMinHeap heap x)) = insert x (set (nodes heap))"
    by (metis set_mset_add_mset_insert set_mset_mset)
  then show ?thesis by simp
next
  case False
  then show ?thesis by (auto simp: insertMinHeap_def)
qed

lemma set_extractMin: "set (nodes (snd (extractMin heap))) \<subseteq> set (nodes heap)"
proof (cases "nodes heap = []")
  case True
  then show ?thesis by (simp add: extractMin_def)
next
  case False
  from mset_extractMin [OF False]
  have "set (nodes heap)
        = insert (fst (extractMin heap)) (set (nodes (snd (extractMin heap))))"
    by (metis set_mset_add_mset_insert set_mset_mset)
  then show ?thesis by auto
qed

lemma heap_calls_relabel:
  assumes "\<forall>n. n \<noteq> NULL \<longrightarrow> frequency (g n) = frequency n"
    and "Insert NULL \<notin> set calls" and "NULL \<notin> set (nodes heap)"
  shows "heap_calls (heap\<lparr>nodes := map g (nodes heap)\<rparr>) (map (relabel g) calls)
         = (heap_calls heap calls)\<lparr>nodes := map g (nodes (heap_calls heap calls))\<rparr>
         \<and> NULL \<notin> set (nodes (heap_calls heap calls))"
  using assms(2,3)
proof (induction calls arbitrary: heap)
  case Nil
  then show ?case by simp
next
  case (Cons call calls)
  from Cons.prems(2) assms(1) have pres: "\<forall>n\<in>set (nodes heap). frequency (g n) = frequency n"
    by metis
  show ?case
  proof (cases call)
    case (Insert x)
    with Cons.prems(1) have x: "x \<noteq> NULL" by auto
    with Cons.prems(2) set_insertMinHeap [of heap x]
    have nn: "NULL \<notin> set (nodes (insertMinHeap heap x))" by auto
    from x assms(1) have "frequency (g x) = frequency x" by simp
    from insertMinHeap_map [OF pres this] Cons.IH [OF _ nn] Cons.prems(1) Insert
    show ?thesis by simp
  next
    case ExtractMin
    from Cons.prems(2) set_extractMin [of heap]
    have nn: "NULL \<notin> set (nodes (snd (extractMin heap)))" by auto
    show ?thesis
    proof (cases "nodes heap = []")
      case True
      then have e1: "snd (extractMin heap) = heap" by (simp add: extractMin_def)
      from True have e2: "snd (extractMin (heap\<lparr>nodes := map g (nodes heap)\<rparr>))
                          = heap\<lparr>nodes := map g (nodes heap)\<rparr>"
        by (simp add: extractMin_def)
      from Cons.IH [OF _ Cons.prems(2)] Cons.prems(1) show ?thesis
        by (simp add: ExtractMin e1 e2)
    next
      case False
      from extractMin_map [OF False pres] Cons.IH [OF _ nn] Cons.prems(1) ExtractMin
      show ?thesis by simp
    qed
  qed
qed

lemma heap_calls_inserts: "heap_calls heap (map Insert xs) = foldl insertMinHeap heap xs"
  by (induction xs arbitrary: heap) simp_all

text \<open>
  Claim C2, as amended.  Let \<open>heap\<close> be the heap that any sequence of \<open>insertMinHeap\<close> calls
  (with non-null nodes) and \<open>extractMin\<close> calls leaves of a heap created empty, and let it store
  at least one node.  Then no stored node weighs less than the node that \<open>extractMin\<close> returns;
  \<open>extractMin\<close> removes from the stored nodes the returned node and nothing else; the queue
  looks at weights only, that is, when every inserted node is replaced by a non-null node of the
  same weight, \<open>extractMin\<close> returns the replacement of the node it returned before; and when
  the calls were insertions only, all within the capacity, \<open>extractMin\<close> returns the node
  inserted earliest among those of minimum weight: position \<open>i\<close> of the insertion sequence,
  where no node weighs less and every earlier node weighs strictly more.
\<close>

theorem extractMin_minimum_weight:
  assumes "Insert NULL \<notin> set calls"
    and "heap = heap_calls (createMinHeap cap) calls"
    and "nodes heap \<noteq> []"
  shows "(\<forall>n\<in>set (nodes heap). frequency (fst (extractMin heap)) \<le> frequency n)
         \<and> mset (nodes heap)
             = add_mset (fst (extractMin heap)) (mset (nodes (snd (extractMin heap))))
         \<and> (\<forall>g. (\<forall>n. n \<noteq> NULL \<longrightarrow> g n \<noteq> NULL \<and> frequency (g n) = frequency n) \<longrightarrow>
               fst (extractMin (heap_calls (createMinHeap cap) (map (relabel g) calls)))
                 = g (fst (extractMin heap)))
         \<and> (\<forall>xs. calls = map Insert xs \<and> length xs \<le> cap \<longrightarrow>
               (\<exists>i<length xs.
                   fst (extractMin heap) = xs ! i
                   \<and> (\<forall>j<length xs. frequency (xs ! i) \<le> frequency (xs ! j))
                   \<and> (\<forall>j<i. frequency (xs ! i) < frequency (xs ! j))))"
proof (intro conjI allI impI ballI)
  have "heap_ordered (nodes (createMinHeap cap))"
    by (simp add: createMinHeap_def heap_ordered_def)
  then have ordered: "heap_ordered (nodes heap)"
    unfolding assms(2) by (rule heap_ordered_heap_calls)
  fix n assume "n \<in> set (nodes heap)"
  with ordered show "frequency (fst (extractMin heap)) \<le> frequency n"
    by (rule extractMin_minimum)
next
  from assms(3)
  show "mset (nodes heap)
        = add_mset (fst (extractMin heap)) (mset (nodes (snd (extractMin heap))))"
    by (rule mset_extractMin)
next
  fix g assume g: "\<forall>n. n \<noteq> NULL \<longrightarrow> g n \<noteq> NULL \<and> frequency (g n) = frequency n"
  then have g': "\<forall>n. n \<noteq> NULL \<longrightarrow> frequency (g n) = frequency n" by simp
  have start: "(createMinHeap cap)\<lparr>nodes := map g (nodes (createMinHeap cap))\<rparr>
               = createMinHeap cap" "NULL \<notin> set (nodes (createMinHeap cap))"
    by (simp_all add: createMinHeap_def)
  from heap_calls_relabel [OF g' assms(1) start(2)]
  have same: "heap_calls (createMinHeap cap) (map (relabel g) calls)
              = heap\<lparr>nodes := map g (nodes heap)\<rparr>"
    and nn: "NULL \<notin> set (nodes heap)"
    unfolding start(1) assms(2) by simp_all
  from nn g' have "\<forall>n\<in>set (nodes heap). frequency (g n) = frequency n" by metis
  from extractMin_map [OF assms(3) this]
  show "fst (extractMin (heap_calls (createMinHeap cap) (map (relabel g) calls)))
        = g (fst (extractMin heap))"
    unfolding same by simp
next
  fix xs assume xs: "calls = map Insert xs \<and> length xs \<le> cap"
  let ?H = "foldl insertMinHeap (createMinHeap cap) xs"
  from xs have H: "heap = ?H" unfolding assms(2) by (simp add: heap_calls_inserts)
  from xs have len: "length xs \<le> cap" by simp
  from insert_all_invariant [OF len] have ms: "mset (nodes ?H) = mset xs" by simp
  with assms(3) H have "xs \<noteq> []" by auto
  with insert_all_invariant [OF len]
  obtain i where i: "earliest_min xs i" "nodes ?H ! 0 = xs ! i" by blast
  from assms(3) H i(2) have "fst (extractMin heap) = xs ! i" by (simp add: fst_extractMin)
  with i(1) show "\<exists>i<length xs.
                   fst (extractMin heap) = xs ! i
                   \<and> (\<forall>j<length xs. frequency (xs ! i) \<le> frequency (xs ! j))
                   \<and> (\<forall>j<i. frequency (xs ! i) < frequency (xs ! j))"
    unfolding earliest_min_def by blast
qed

theorem extractMin_minimum_weight_witness:
  "Insert NULL \<notin> set (map Insert [createNode 1 5, createNode 2 3, createNode 3 3])
   \<and> nodes (heap_calls (createMinHeap 3)
              (map Insert [createNode 1 5, createNode 2 3, createNode 3 3])) \<noteq> []
   \<and> length [createNode 1 5, createNode 2 3, createNode 3 3] \<le> 3
   \<and> fst (extractMin (heap_calls (createMinHeap 3)
              (map Insert [createNode 1 5, createNode 2 3, createNode 3 3]))) = createNode 2 3
   \<and> Insert NULL \<notin> set [Insert (createNode 1 1), Insert (createNode 2 2),
                             Insert (createNode 3 3), ExtractMin]
   \<and> nodes (heap_calls (createMinHeap 3)
              [Insert (createNode 1 1), Insert (createNode 2 2), Insert (createNode 3 3),
               ExtractMin]) = [createNode 2 2, createNode 3 3]
   \<and> fst (extractMin (heap_calls (createMinHeap 3)
              [Insert (createNode 1 1), Insert (createNode 2 2), Insert (createNode 3 3),
               ExtractMin])) = createNode 2 2
   \<and> nodes (snd (extractMin (heap_calls (createMinHeap 3)
              [Insert (createNode 1 1), Insert (createNode 2 2), Insert (createNode 3 3),
               ExtractMin]))) = [createNode 3 3]
   \<and> fst (extractMin (heap_calls (createMinHeap 3)
              [Insert (createNode 101 1), Insert (createNode 102 2), Insert (createNode 103 3),
               ExtractMin])) = createNode 102 2"
proof -
  let ?xs = "[createNode 1 5, createNode 2 3, createNode 3 3]"
  let ?H = "heap_calls (createMinHeap 3) (map Insert ?xs)"
  have h: "Insert NULL \<notin> set (map Insert ?xs)" "?H = heap_calls (createMinHeap 3) (map Insert ?xs)"
    by (simp_all add: createNode_def)
  have ne: "nodes ?H \<noteq> []" by code_simp
  have len: "length ?xs \<le> 3" by simp
  from extractMin_minimum_weight [OF h ne] len
  obtain i where i: "i < length ?xs" "fst (extractMin ?H) = ?xs ! i"
    "\<forall>j<length ?xs. frequency (?xs ! i) \<le> frequency (?xs ! j)"
    "\<forall>j<i. frequency (?xs ! i) < frequency (?xs ! j)"
    by blast
  from i(1) consider "i = 0" | "i = 1" | "i = 2" by fastforce
  then have "i = 1"
  proof cases
    case 1
    with i(3) [rule_format, of 1] show ?thesis by (simp add: createNode_def)
  next
    case 2
    then show ?thesis .
  next
    case 3
    with i(4) [rule_format, of 1] show ?thesis by (simp add: createNode_def)
  qed
  with i(2) have first: "fst (extractMin ?H) = createNode 2 3" by simp
  let ?calls = "[Insert (createNode 1 1), Insert (createNode 2 2), Insert (createNode 3 3),
                 ExtractMin]"
  let ?K = "heap_calls (createMinHeap 3) ?calls"
  let ?g = "\<lambda>n. case n of NULL \<Rightarrow> NULL | Node c f l r \<Rightarrow> Node (c + 100) f l r"
  have k: "Insert NULL \<notin> set ?calls" "?K = heap_calls (createMinHeap 3) ?calls"
    by (simp_all add: createNode_def)
  have stored: "nodes ?K = [createNode 2 2, createNode 3 3]" by code_simp
  then have kne: "nodes ?K \<noteq> []" by simp
  note t = extractMin_minimum_weight [OF k kne]
  from t have least: "\<forall>n\<in>set (nodes ?K). frequency (fst (extractMin ?K)) \<le> frequency n"
    and rest: "mset (nodes ?K)
               = add_mset (fst (extractMin ?K)) (mset (nodes (snd (extractMin ?K))))"
    by blast+
  from rest have "fst (extractMin ?K) \<in># mset (nodes ?K)" by simp
  then have "fst (extractMin ?K) = createNode 2 2 \<or> fst (extractMin ?K) = createNode 3 3"
    unfolding stored by simp
  moreover from least have "frequency (fst (extractMin ?K)) \<le> frequency (createNode 2 2)"
    unfolding stored by simp
  ultimately have second: "fst (extractMin ?K) = createNode 2 2"
    by (auto simp: createNode_def)
  from rest have "mset (nodes (snd (extractMin ?K))) = {#createNode 3 3#}"
    unfolding stored second by simp
  then have left: "nodes (snd (extractMin ?K)) = [createNode 3 3]"
    by (metis mset_single_iff_right)
  have g: "\<forall>n. n \<noteq> NULL \<longrightarrow> ?g n \<noteq> NULL \<and> frequency (?g n) = frequency n"
    by (simp split: HuffmanNode.split)
  have relabelled: "map (relabel ?g) ?calls
        = [Insert (createNode 101 1), Insert (createNode 102 2), Insert (createNode 103 3),
           ExtractMin]"
    by (simp add: createNode_def)
  from t have "\<forall>g. (\<forall>n. n \<noteq> NULL \<longrightarrow> g n \<noteq> NULL \<and> frequency (g n) = frequency n) \<longrightarrow>
                 fst (extractMin (heap_calls (createMinHeap 3) (map (relabel g) ?calls)))
                   = g (fst (extractMin ?K))"
    by blast
  from this [THEN spec, THEN mp, OF g]
  have "fst (extractMin (heap_calls (createMinHeap 3) (map (relabel ?g) ?calls)))
        = ?g (createNode 2 2)"
    unfolding second .
  then have third: "fst (extractMin (heap_calls (createMinHeap 3)
                  [Insert (createNode 101 1), Insert (createNode 102 2),
                   Insert (createNode 103 3), ExtractMin])) = createNode 102 2"
    unfolding relabelled by (simp add: createNode_def)
  from h(1) ne len first k(1) stored second left third show ?thesis by blast
qed

text \<open>
  Claim C2, as stated, fails once a node has been extracted.  Three nodes of weight 5 are
  inserted in the order 1, 2, 3.  The first \<open>extractMin\<close> returns node 1 and moves the last
  array slot, node 3, to the root; the heap then stores nodes 3 and 2, both of minimum weight,
  and the next \<open>extractMin\<close> returns node 3 although node 2 was inserted before it.
\<close>

theorem extractMin_not_stable_counterexample:
  "fst (extractMin (snd (extractMin (foldl insertMinHeap (createMinHeap 3)
          [createNode 1 5, createNode 2 5, createNode 3 5])))) = createNode 3 5
   \<and> nodes (snd (extractMin (foldl insertMinHeap (createMinHeap 3)
          [createNode 1 5, createNode 2 5, createNode 3 5]))) = [createNode 3 5, createNode 2 5]
   \<and> frequency (createNode 2 5) = frequency (createNode 3 5)"
  by code_simp

section \<open>The tree that \<open>buildHuffmanTree\<close> returns\<close>

lemma heap_chars_cong: "mset ns = mset ms \<Longrightarrow> heap_chars ns = heap_chars ms"
  by (simp add: heap_chars_def)

lemma heap_chars_add:
  "mset ns = add_mset t (mset ms) \<Longrightarrow> heap_chars ns = mset (leaf_chars t) + heap_chars ms"
  by (simp add: heap_chars_def)

lemma full_tree_not_NULL: "full_tree t \<Longrightarrow> t \<noteq> NULL"
  by (cases t) auto

lemma full_tree_leaf_chars_ne: "full_tree t \<Longrightarrow> leaf_chars t \<noteq> []"
  by (induction t) auto

lemma mergeLoop_tree:
  assumes "\<forall>t\<in>set (nodes heap). full_tree t" and "size_heap heap \<le> capacity heap"
    and "nodes heap \<noteq> []"
  shows "full_tree (mergeLoop heap)
         \<and> mset (leaf_chars (mergeLoop heap)) = heap_chars (nodes heap)"
  using assms
proof (induction heap rule: mergeLoop.induct)
  case (1 heap)
  show ?case
  proof (cases "1 < size_heap heap")
    case True
    obtain l heap1 where e1: "extractMin heap = (l, heap1)" by (cases "extractMin heap")
    obtain r heap2 where e2: "extractMin heap1 = (r, heap2)" by (cases "extractMin heap1")
    have m1: "mset (nodes heap) = add_mset l (mset (nodes heap1))"
      using mset_extractMin [OF "1.prems"(3)] e1 by simp
    have s1: "size_heap heap1 = size_heap heap - 1" using e1 by (rule size_extractMin)
    with True have ne1: "nodes heap1 \<noteq> []" by auto
    have m2: "mset (nodes heap1) = add_mset r (mset (nodes heap2))"
      using mset_extractMin [OF ne1] e2 by simp
    have s2: "size_heap heap2 = size_heap heap - 2"
      using size_extractMin [OF e2] s1 by simp
    have c2: "capacity heap2 = capacity heap"
      using capacity_extractMin [of heap] capacity_extractMin [of heap1] e1 e2 by simp
    from m1 have "l \<in> set (nodes heap)" by (metis mset_eq_setD list.set_intros(1) set_mset_mset union_single_eq_member)
    with "1.prems"(1) have fl: "full_tree l" by blast
    from m1 m2 have "r \<in> set (nodes heap)"
      by (metis insert_iff mset_eq_setD set_mset_add_mset_insert set_mset_mset)
    with "1.prems"(1) have fr: "full_tree r" by blast
    from fl fr have nn: "l \<noteq> NULL" "r \<noteq> NULL" by (auto dest: full_tree_not_NULL)
    let ?m = "Node 0 (frequency l + frequency r) l r"
    let ?h3 = "insertMinHeap heap2 ?m"
    have room: "size_heap heap2 < capacity heap2" using s2 c2 True "1.prems"(2) by simp
    have m3: "mset (nodes ?h3) = add_mset ?m (mset (nodes heap2))"
      using room by (rule mset_insertMinHeap)
    have step: "mergeLoop heap = mergeLoop ?h3"
      using True e1 e2 nn by (subst mergeLoop.simps) simp
    have a: "\<forall>t\<in>set (nodes ?h3). full_tree t"
    proof
      fix t assume "t \<in> set (nodes ?h3)"
      then have "t \<in># add_mset ?m (mset (nodes heap2))" using m3 by (metis set_mset_mset)
      then have "t = ?m \<or> t \<in> set (nodes heap2)" by auto
      moreover have "set (nodes heap2) \<subseteq> set (nodes heap)"
        using m1 m2 by (metis mset_eq_setD set_mset_add_mset_insert set_mset_mset subset_insertI subset_trans)
      ultimately show "full_tree t" using fl fr nn "1.prems"(1) by auto
    qed
    have b: "size_heap ?h3 \<le> capacity ?h3"
      using size_insertMinHeap [of heap2 ?m] room by simp
    have c: "nodes ?h3 \<noteq> []" using m3 by auto
    have "heap_chars (nodes ?h3) = mset (leaf_chars ?m) + heap_chars (nodes heap2)"
      using m3 by (rule heap_chars_add)
    also have "\<dots> = mset (leaf_chars l) + (mset (leaf_chars r) + heap_chars (nodes heap2))"
      using nn by simp
    also have "\<dots> = mset (leaf_chars l) + heap_chars (nodes heap1)"
      using heap_chars_add [OF m2] by simp
    also have "\<dots> = heap_chars (nodes heap)"
      using heap_chars_add [OF m1] by simp
    finally have hc: "heap_chars (nodes ?h3) = heap_chars (nodes heap)" .
    from nn have nn': "\<not> (l = NULL \<or> r = NULL)" by simp
    from "1.IH" [OF True e1 [symmetric] e2 [symmetric] nn' a b c] step hc
    show ?thesis by simp
  next
    case False
    with "1.prems"(3) obtain t where t: "nodes heap = [t]"
      by (cases "nodes heap") auto
    then have "mergeLoop heap = t"
      by (subst mergeLoop.simps) (simp add: extractMin_def Let_def)
    with t "1.prems"(1) show ?thesis by (simp add: heap_chars_def)
  qed
qed

lemma foldl_populate:
  "foldl (\<lambda>heap i. if f (of_nat i) > (0 :: u32)
                    then insertMinHeap heap (createNode (of_nat i) (f (of_nat i)))
                    else heap) heap0 ns
   = foldl insertMinHeap heap0
       (map (\<lambda>c. createNode c (f c)) (filter (\<lambda>c. f c > 0) (map of_nat ns)))"
  by (induction ns arbitrary: heap0) auto

lemma populate_inserts:
  "populate f heap = foldl insertMinHeap heap (map (\<lambda>c. createNode c (f c)) (symbols_present f))"
  by (simp add: populate_def symbols_present_def foldl_populate)

lemma heap_chars_leaves: "heap_chars (map (\<lambda>c. createNode c (f c)) cs) = mset cs"
  by (induction cs) (simp_all add: heap_chars_def createNode_def)

lemma distinct_symbols_present: "distinct (symbols_present f)"
  using symbols_present_ascending [of f] by (simp add: strict_sorted_iff)

lemma buildHuffmanTree_none: "countUnique f = 0 \<Longrightarrow> buildHuffmanTree f = NULL"
  by (simp add: buildHuffmanTree_def)

lemma find_filter_Cons: "filter P xs = y # ys \<Longrightarrow> List.find P xs = Some y"
  by (induction xs) (auto split: if_splits)

lemma find_first_present:
  assumes "symbols_present f = c # cs"
  shows "\<exists>i. List.find (\<lambda>i. f (of_nat i) > 0) [0..<ASCII_SIZE] = Some i \<and> of_nat i = c"
proof -
  have "map of_nat (filter (\<lambda>i. f (of_nat i :: byte) > 0) [0..<ASCII_SIZE]) = c # cs"
    using assms by (simp add: symbols_present_def filter_map comp_def)
  then obtain i js where fi: "filter (\<lambda>i. f (of_nat i :: byte) > 0) [0..<ASCII_SIZE] = i # js"
    and i: "of_nat i = c"
    by auto
  from fi have "List.find (\<lambda>i. f (of_nat i :: byte) > 0) [0..<ASCII_SIZE] = Some i"
    by (rule find_filter_Cons)
  with i show ?thesis by blast
qed


lemma buildHuffmanTree_single:
  assumes "symbols_present f = [c]"
  shows "buildHuffmanTree f = Node 0 (f c) (Node c (f c) NULL NULL) NULL"
proof -
  from assms have "countUnique f = 1" by (simp add: countUnique_present)
  moreover from find_first_present [OF assms]
  obtain i where "List.find (\<lambda>i. f (of_nat i) > 0) [0..<ASCII_SIZE] = Some i" "of_nat i = c"
    by blast
  ultimately show ?thesis by (simp add: buildHuffmanTree_def createNode_def)
qed

lemma buildHuffmanTree_general:
  assumes "2 \<le> countUnique f"
  shows "full_tree (buildHuffmanTree f)
         \<and> mset (leaf_chars (buildHuffmanTree f)) = mset (symbols_present f)"
proof -
  let ?leaves = "map (\<lambda>c. createNode c (f c)) (symbols_present f)"
  let ?H = "foldl insertMinHeap (createMinHeap (countUnique f)) ?leaves"
  have b: "buildHuffmanTree f = mergeLoop ?H"
    using assms by (simp add: buildHuffmanTree_def populate_inserts)
  have "length ?leaves \<le> countUnique f" by (simp add: countUnique_present)
  from insert_all_invariant [OF this]
  have cap: "capacity ?H = countUnique f" and ms: "mset (nodes ?H) = mset ?leaves"
    by auto
  from ms have sz: "size_heap ?H = countUnique f"
    using mset_eq_length [OF ms] by (simp add: countUnique_present)
  have "set (nodes ?H) = set ?leaves" using ms by (rule mset_eq_setD)
  then have 1: "\<forall>t\<in>set (nodes ?H). full_tree t" by (auto simp: createNode_def)
  have 2: "size_heap ?H \<le> capacity ?H" using cap sz by simp
  have 3: "nodes ?H \<noteq> []" using sz assms by auto
  have "heap_chars (nodes ?H) = mset (symbols_present f)"
    using heap_chars_cong [OF ms] by (simp add: heap_chars_leaves)
  with mergeLoop_tree [OF 1 2 3] b show ?thesis by simp
qed

section \<open>The code table\<close>

lemma store_codes_append:
  "store_codes codes (xs @ ys) = store_codes (store_codes codes xs) ys"
  by (simp add: store_codes_def)

lemma generateCodes_code_list:
  "generateCodes t codes p (length p) = store_codes codes (code_list t p)"
proof (induction t arbitrary: codes p)
  case NULL
  then show ?case by (simp add: store_codes_def)
next
  case (Node c f l r)
  show ?case
  proof (cases "l = NULL \<and> r = NULL")
    case True
    then show ?thesis by (simp add: store_codes_def)
  next
    case False
    have l: "(if l \<noteq> NULL then generateCodes l codes (p @ ''0'') (length p + 1) else codes)
             = store_codes codes (code_list l (p @ ''0''))"
      using Node.IH(1) [of codes "p @ ''0''"] by (cases l) (simp_all add: store_codes_def)
    have r: "(if r \<noteq> NULL then generateCodes r codes' (p @ ''1'') (length p + 1) else codes')
             = store_codes codes' (code_list r (p @ ''1''))" for codes'
      using Node.IH(2) [of codes' "p @ ''1''"] by (cases r) (simp_all add: store_codes_def)
    have "generateCodes (Node c f l r) codes p (length p)
          = (if r \<noteq> NULL
             then generateCodes r
                    (if l \<noteq> NULL then generateCodes l codes (p @ ''0'') (length p + 1) else codes)
                    (p @ ''1'') (length p + 1)
             else (if l \<noteq> NULL then generateCodes l codes (p @ ''0'') (length p + 1) else codes))"
      using False by (simp add: Let_def)
    also have "\<dots> = store_codes (store_codes codes (code_list l (p @ ''0'')))
                        (code_list r (p @ ''1''))"
      unfolding l r ..
    finally have "generateCodes (Node c f l r) codes p (length p)
                  = store_codes (store_codes codes (code_list l (p @ ''0'')))
                      (code_list r (p @ ''1''))" .
    moreover have "code_list (Node c f l r) p = code_list l (p @ ''0'') @ code_list r (p @ ''1'')"
      using False by simp
    ultimately show ?thesis by (simp only: store_codes_append)
  qed
qed

lemma map_fst_code_list: "map fst (code_list t p) = leaf_chars t"
  by (induction t arbitrary: p) auto

lemma store_codes_other: "c \<notin> fst ` set cl \<Longrightarrow> store_codes codes cl c = codes c"
  by (induction cl arbitrary: codes) (auto simp: store_codes_def)

lemma store_codes_distinct:
  "distinct (map fst cl) \<Longrightarrow> (c, s) \<in> set cl
   \<Longrightarrow> store_codes codes cl c = \<lparr>code = s, clength = length s\<rparr>"
proof (induction cl arbitrary: codes)
  case Nil
  then show ?case by simp
next
  case (Cons a cl)
  obtain c' s' where a: "a = (c', s')" by (cases a)
  have unfold: "store_codes codes (a # cl)
                = store_codes (codes(c' := \<lparr>code = s', clength = length s'\<rparr>)) cl"
    by (simp add: store_codes_def a)
  show ?case
  proof (cases "(c, s) \<in> set cl")
    case True
    with Cons show ?thesis unfolding unfold by simp
  next
    case False
    with Cons.prems a have eq: "c' = c" "s' = s" and "c \<notin> fst ` set cl" by auto
    then show ?thesis unfolding unfold by (simp add: store_codes_other)
  qed
qed

lemma code_list_prefix: "(c, s) \<in> set (code_list t p) \<Longrightarrow> prefix p s"
proof (induction t arbitrary: p)
  case NULL
  then show ?case by simp
next
  case (Node c' f l r)
  then show ?case
    by (auto split: if_splits dest!: Node.IH intro: append_prefixD)
qed

lemma code_list_prefix_free:
  "(c1, s1) \<in> set (code_list t p) \<Longrightarrow> (c2, s2) \<in> set (code_list t p) \<Longrightarrow> prefix s1 s2
   \<Longrightarrow> c1 = c2 \<and> s1 = s2"
proof (induction t arbitrary: p)
  case NULL
  then show ?case by simp
next
  case (Node c f l r)
  show ?case
  proof (cases "l = NULL \<and> r = NULL")
    case True
    with Node.prems show ?thesis by simp
  next
    case False
    have cross: False
      if "prefix (p @ a) u" "prefix (p @ b) v" "prefix u v" "length a = 1" "length b = 1" "a \<noteq> b"
      for a b u v :: string
    proof -
      from that have pa: "prefix (p @ a) v" and pb: "prefix (p @ b) v"
        by (auto intro: prefix_order.trans)
      from pa obtain z1 where z1: "v = (p @ a) @ z1" by (rule prefixE)
      from pb obtain z2 where z2: "v = (p @ b) @ z2" by (rule prefixE)
      from z1 z2 have "a @ z1 = b @ z2" by simp
      with that(4,5) have "a = b" by (simp add: append_eq_append_conv)
      with that(6) show False by simp
    qed
    from False Node.prems(1) consider
        (l) "(c1, s1) \<in> set (code_list l (p @ ''0''))"
      | (r) "(c1, s1) \<in> set (code_list r (p @ ''1''))" by auto
    then show ?thesis
    proof cases
      case l
      from False Node.prems(2) consider
          (l2) "(c2, s2) \<in> set (code_list l (p @ ''0''))"
        | (r2) "(c2, s2) \<in> set (code_list r (p @ ''1''))" by auto
      then show ?thesis
      proof cases
        case l2
        from Node.IH(1) [OF l l2 Node.prems(3)] show ?thesis .
      next
        case r2
        from cross [OF code_list_prefix [OF l] code_list_prefix [OF r2] Node.prems(3)]
        show ?thesis by simp
      qed
    next
      case r
      from False Node.prems(2) consider
          (l2) "(c2, s2) \<in> set (code_list l (p @ ''0''))"
        | (r2) "(c2, s2) \<in> set (code_list r (p @ ''1''))" by auto
      then show ?thesis
      proof cases
        case l2
        from cross [OF code_list_prefix [OF r] code_list_prefix [OF l2] Node.prems(3)]
        show ?thesis by simp
      next
        case r2
        from Node.IH(2) [OF r r2 Node.prems(3)] show ?thesis .
      qed
    qed
  qed
qed


lemma leaf_chars_leaf_length:
  "full_tree t \<Longrightarrow> left t = NULL \<and> right t = NULL \<Longrightarrow> length (leaf_chars t) = 1"
  by (cases t) auto

lemma buildCodeTable_inner:
  assumes "\<not> (l = NULL \<and> r = NULL)"
  shows "buildCodeTable (Node c f l r)
         = store_codes (\<lambda>_. \<lparr>code = [], clength = 0\<rparr>) (code_list (Node c f l r) [])"
proof -
  have "buildCodeTable (Node c f l r)
        = generateCodes (Node c f l r) (\<lambda>_. \<lparr>code = [], clength = 0\<rparr>) [] (length ([] :: string))"
    using assms by (auto simp add: buildCodeTable_def Let_def simp del: generateCodes.simps)
  also have "\<dots> = store_codes (\<lambda>_. \<lparr>code = [], clength = 0\<rparr>) (code_list (Node c f l r) [])"
    by (rule generateCodes_code_list)
  finally show ?thesis .
qed

text \<open>
  Claim C5.  In the code table that \<open>buildCodeTable\<close> produces for the tree built from a
  frequency table, the code of a symbol with a nonzero count is never a prefix of the code of
  another symbol with a nonzero count.
\<close>

theorem codes_prefix_free:
  assumes "frequencies c1 \<noteq> 0" and "frequencies c2 \<noteq> 0" and "c1 \<noteq> c2"
  shows "\<not> prefix (code (buildCodeTable (buildHuffmanTree frequencies) c1))
                  (code (buildCodeTable (buildHuffmanTree frequencies) c2))"
proof
  let ?t = "buildHuffmanTree frequencies"
  let ?cl = "code_list ?t []"
  assume p: "prefix (code (buildCodeTable ?t c1)) (code (buildCodeTable ?t c2))"
  from assms have in12: "c1 \<in> set (symbols_present frequencies)"
    "c2 \<in> set (symbols_present frequencies)"
    by (simp_all add: set_symbols_present)
  have len2: "2 \<le> length (symbols_present frequencies)"
  proof (rule ccontr)
    assume "\<not> 2 \<le> length (symbols_present frequencies)"
    then have "length (symbols_present frequencies) \<le> 1" by simp
    then have "symbols_present frequencies = [] \<or> (\<exists>x. symbols_present frequencies = [x])"
      by (cases "symbols_present frequencies") auto
    with in12 assms(3) show False by auto
  qed
  then have two: "2 \<le> countUnique frequencies" by (simp add: countUnique_present)
  from buildHuffmanTree_general [OF two]
  have full: "full_tree ?t" and ms: "mset (leaf_chars ?t) = mset (symbols_present frequencies)"
    by auto
  from ms have len: "length (leaf_chars ?t) = length (symbols_present frequencies)"
    by (rule mset_eq_length)
  from full obtain c f l r where t: "?t = Node c f l r" by (cases ?t) auto
  have inner: "\<not> (l = NULL \<and> r = NULL)"
    using len len2 t by auto
  then have table: "buildCodeTable ?t = store_codes (\<lambda>_. \<lparr>code = [], clength = 0\<rparr>) ?cl"
    unfolding t by (rule buildCodeTable_inner)
  have dist: "distinct (map fst ?cl)"
    using ms distinct_symbols_present [of frequencies]
    by (simp add: map_fst_code_list mset_eq_imp_distinct_iff [OF ms])
  have "set (map fst ?cl) = set (symbols_present frequencies)"
    using mset_eq_setD [OF ms] by (simp add: map_fst_code_list)
  with in12 have "c1 \<in> fst ` set ?cl" "c2 \<in> fst ` set ?cl" by simp_all
  then obtain s1 s2 where s: "(c1, s1) \<in> set ?cl" "(c2, s2) \<in> set ?cl"
    by force
  from store_codes_distinct [OF dist s(1)] store_codes_distinct [OF dist s(2)] table p
  have "prefix s1 s2" by simp
  from code_list_prefix_free [OF s this] assms(3) show False by simp
qed

theorem codes_prefix_free_witness:
  "((\<lambda>_. 0)(65 := 2, 66 := 3, 67 := 4) :: freq_table) 65 \<noteq> 0
   \<and> ((\<lambda>_. 0)(65 := 2, 66 := 3, 67 := 4) :: freq_table) 66 \<noteq> 0
   \<and> (65 :: byte) \<noteq> 66
   \<and> \<not> prefix (code (buildCodeTable (buildHuffmanTree ((\<lambda>_. 0)(65 := 2, 66 := 3, 67 := 4))) 65))
               (code (buildCodeTable (buildHuffmanTree ((\<lambda>_. 0)(65 := 2, 66 := 3, 67 := 4))) 66))
   \<and> code (buildCodeTable (buildHuffmanTree ((\<lambda>_. 0)(65 := 2, 66 := 3, 67 := 4))) 65) = ''10''
   \<and> code (buildCodeTable (buildHuffmanTree ((\<lambda>_. 0)(65 := 2, 66 := 3, 67 := 4))) 66) = ''11''"
proof -
  let ?f = "(\<lambda>_. 0)(65 := 2, 66 := 3, 67 := 4) :: freq_table"
  have h: "?f 65 \<noteq> 0" "?f 66 \<noteq> 0" "(65 :: byte) \<noteq> 66" by simp_all
  have c: "code (buildCodeTable (buildHuffmanTree ?f) 65) = ''10''"
    "code (buildCodeTable (buildHuffmanTree ?f) 66) = ''11''"
    by code_simp+
  from codes_prefix_free [OF h] h c show ?thesis by blast
qed

section \<open>Bits in and out\<close>

lemma length_byte_bits [simp]: "length (byte_bits b) = 8"
  by (simp add: byte_bits_def)

lemma length_concat_byte_bits [simp]: "length (concat (map byte_bits bs)) = 8 * length bs"
  by (induction bs) simp_all

lemma bit_shifted:
  fixes buf :: byte
  shows "bit (push_bit 1 buf OR of_bool b) n = (if n = 0 then b else n < 8 \<and> bit buf (n - 1))"
  unfolding bit_or_iff bit_push_bit_iff bit_of_bool_iff
  by (auto simp: possible_bit_word dest: bit_imp_le_length)

lemma rev_upt_8: "rev [0..<8] = 7 # rev [0..<7]"
proof -
  have "(8::nat) = Suc 7" by simp
  then have "[0..<8] = [0..<7] @ [7]" by (simp only: upt_Suc_append [OF le0])
  then show ?thesis by simp
qed

lemma shifted_bits:
  fixes buf :: byte
  assumes "k < 8"
  shows "map (bit (push_bit 1 buf OR of_bool b)) (rev [0..<Suc k])
           = map (bit buf) (rev [0..<k]) @ [b]"
proof -
  have f: "bit (push_bit 1 buf OR of_bool b) = (\<lambda>n. if n = 0 then b else n < 8 \<and> bit buf (n - 1))"
    by (rule ext) (rule bit_shifted)
  from assms show ?thesis unfolding f by (induction k) simp_all
qed

lemma bit_pushed:
  fixes buf :: byte
  shows "bit (push_bit m buf) n = (m \<le> n \<and> n < 8 \<and> bit buf (n - m))"
  by (auto simp: bit_push_bit_iff possible_bit_word)

lemma pushed_bits:
  fixes buf :: byte
  assumes "m + k \<le> 8"
  shows "map (bit (push_bit m buf)) (rev [0..<m + k]) = map (bit buf) (rev [0..<k]) @ replicate m False"
proof -
  have f: "bit (push_bit m buf) = (\<lambda>n. m \<le> n \<and> n < 8 \<and> bit buf (n - m))"
    by (rule ext) (rule bit_pushed)
  have z: "map (\<lambda>n. m \<le> n \<and> n < 8 \<and> bit buf (n - m)) (rev [0..<j]) = replicate j False"
    if "j \<le> m" for j
    using that by (induction j) simp_all
  from assms show ?thesis unfolding f by (induction k) (simp_all add: z)
qed

lemma bit_test: "(drop_bit n (w :: byte) AND 1 = 1) = bit w n"
  by (simp add: and_one_eq bit_iff_odd_drop_bit mod_2_eq_odd)

lemma readBit_stream_Nil: "stream rd = [] \<Longrightarrow> readBit rd = None"
  by (cases rd) (auto simp: stream_def readBit_def byte_bits_def split: list.splits)

lemma readBit_stream_Cons:
  assumes "stream rd = b # bs"
  shows "\<exists>rd'. readBit rd = Some (b, rd') \<and> stream rd' = bs"
proof -
  obtain fl cur pos where rd: "rd = (fl, cur, pos)" by (cases rd)
  show ?thesis
  proof (cases pos)
    case 0
    show ?thesis
    proof (cases fl)
      case Nil
      with 0 rd assms show ?thesis by (simp add: stream_def)
    next
      case (Cons ch file')
      with 0 rd Cons assms rev_upt_8 have "b = bit ch 7" "bs = map (bit ch) (rev [0..<7]) @ concat (map byte_bits file')"
        by (simp_all add: stream_def byte_bits_def)
      with 0 rd Cons show ?thesis
        by (simp add: readBit_def stream_def bit_test)
    qed
  next
    case (Suc n)
    with rd assms have "b = bit cur n" "bs = map (bit cur) (rev [0..<n]) @ concat (map byte_bits fl)"
      by (simp_all add: stream_def)
    with Suc rd show ?thesis
      by (simp add: readBit_def stream_def bit_test)
  qed
qed

lemma writeBit_written:
  assumes "bitCount bb < 8"
  shows "written (writeBit (file, bb) b) = written (file, bb) @ [b]
         \<and> bitCount (snd (writeBit (file, bb) b)) < 8"
proof (cases "bitCount bb = 7")
  case True
  with shifted_bits [of 7 buf b for buf] show ?thesis
    by (simp add: writeBit_def written_def Let_def byte_bits_def)
next
  case False
  with assms shifted_bits [OF assms, of "buffer bb" b] show ?thesis
    by (simp add: writeBit_def written_def Let_def)
qed

lemma flushBits_written:
  assumes "bitCount bb < 8"
  shows "concat (map byte_bits (flushBits (file, bb)))
         = written (file, bb) @ replicate (if bitCount bb > 0 then 8 - bitCount bb else 0) False"
proof (cases "bitCount bb > 0")
  case True
  with assms pushed_bits [of "8 - bitCount bb" "bitCount bb" "buffer bb"] show ?thesis
    by (simp add: flushBits_def written_def byte_bits_def)
next
  case False
  then show ?thesis by (simp add: flushBits_def written_def)
qed

lemma foldl_writeBit_written:
  "bitCount (snd st) < 8 \<Longrightarrow>
   written (foldl (\<lambda>st i. writeBit st (g i)) st [0..<n]) = written st @ map g [0..<n]
   \<and> bitCount (snd (foldl (\<lambda>st i. writeBit st (g i)) st [0..<n])) < 8"
proof (induction n)
  case 0
  then show ?case by simp
next
  case (Suc n)
  let ?st = "foldl (\<lambda>st i. writeBit st (g i)) st [0..<n]"
  from Suc have w: "written ?st = written st @ map g [0..<n]" and c: "bitCount (snd ?st) < 8"
    by auto
  from writeBit_written [OF c, of "fst ?st" "g n"] w show ?case by simp
qed

lemma writeCode_written:
  "bitCount (snd st) < 8 \<Longrightarrow>
   written (writeCode st e) = written st @ code_bits e \<and> bitCount (snd (writeCode st e)) < 8"
  unfolding writeCode_def code_bits_def by (rule foldl_writeBit_written)

lemma encodeLoop_written:
  "bitCount (snd st) < 8 \<Longrightarrow>
   written (encodeLoop x codes st) = written st @ concat (map (\<lambda>ch. code_bits (codes ch)) x)
   \<and> bitCount (snd (encodeLoop x codes st)) < 8"
proof (induction x arbitrary: st)
  case Nil
  then show ?case by simp
next
  case (Cons ch x)
  show ?case
  proof (cases "clength (codes ch) = 0")
    case True
    then have "code_bits (codes ch) = []" by (simp add: code_bits_def)
    with True Cons show ?thesis by simp
  next
    case False
    from writeCode_written [OF Cons.prems, of "codes ch"] Cons.IH [of "writeCode st (codes ch)"]
      False
    show ?thesis by simp
  qed
qed

lemma writeBit_prepend:
  "writeBit (out @ fl, bb) b = (out @ fst (writeBit (fl, bb) b), snd (writeBit (fl, bb) b))"
  by (simp add: writeBit_def Let_def)

lemma foldl_writeBit_prepend:
  "foldl (\<lambda>st i. writeBit st (g i)) (out @ fl, bb) ns
   = (out @ fst (foldl (\<lambda>st i. writeBit st (g i)) (fl, bb) ns),
      snd (foldl (\<lambda>st i. writeBit st (g i)) (fl, bb) ns))"
proof (induction ns arbitrary: fl bb)
  case Nil
  then show ?case by simp
next
  case (Cons n ns)
  obtain fl' bb' where w: "writeBit (fl, bb) (g n) = (fl', bb')"
    by (cases "writeBit (fl, bb) (g n)")
  with writeBit_prepend [of out fl bb "g n"] Cons [of fl' bb'] show ?case by simp
qed

lemma writeCode_prepend:
  "writeCode (out @ fl, bb) e = (out @ fst (writeCode (fl, bb) e), snd (writeCode (fl, bb) e))"
  unfolding writeCode_def by (rule foldl_writeBit_prepend)

lemma encodeLoop_prepend:
  "encodeLoop x codes (out @ fl, bb)
   = (out @ fst (encodeLoop x codes (fl, bb)), snd (encodeLoop x codes (fl, bb)))"
proof (induction x arbitrary: fl bb)
  case Nil
  then show ?case by simp
next
  case (Cons ch x)
  obtain fl' bb' where w: "writeCode (fl, bb) (codes ch) = (fl', bb')"
    by (cases "writeCode (fl, bb) (codes ch)")
  with writeCode_prepend [of out fl bb "codes ch"] Cons [of fl' bb'] Cons [of fl bb]
  show ?case by simp
qed

lemma encodeAndWrite_prepend:
  "encodeAndWrite inputFile out codes = out @ encodeAndWrite inputFile [] codes"
proof -
  obtain fl bb where e: "encodeLoop inputFile codes ([], \<lparr>buffer = 0, bitCount = 0\<rparr>) = (fl, bb)"
    by (cases "encodeLoop inputFile codes ([], \<lparr>buffer = 0, bitCount = 0\<rparr>)")
  with encodeLoop_prepend [of inputFile codes out "[]" "\<lparr>buffer = 0, bitCount = 0\<rparr>"]
  show ?thesis by (simp add: encodeAndWrite_def flushBits_def)
qed

lemma encodeAndWrite_bits:
  "\<exists>k<8. concat (map byte_bits (encodeAndWrite inputFile [] codes))
           = concat (map (\<lambda>ch. code_bits (codes ch)) inputFile) @ replicate k False"
proof -
  let ?st = "encodeLoop inputFile codes ([], \<lparr>buffer = 0, bitCount = 0\<rparr>)"
  have "written ?st = concat (map (\<lambda>ch. code_bits (codes ch)) inputFile)"
    and c: "bitCount (snd ?st) < 8"
    using encodeLoop_written [of "([], \<lparr>buffer = 0, bitCount = 0\<rparr>)" inputFile codes]
    by (simp_all add: written_def)
  with flushBits_written [OF c, of "fst ?st"]
  have "concat (map byte_bits (encodeAndWrite inputFile [] codes))
        = concat (map (\<lambda>ch. code_bits (codes ch)) inputFile)
          @ replicate (if bitCount (snd ?st) > 0 then 8 - bitCount (snd ?st) else 0) False"
    by (simp add: encodeAndWrite_def)
  moreover have "(if bitCount (snd ?st) > 0 then 8 - bitCount (snd ?st) else 0) < 8" by simp
  ultimately show ?thesis by blast
qed

section \<open>Decoding what was encoded\<close>

lemma code_bits_stored: "code_bits \<lparr>code = s, clength = length s\<rparr> = string_bits s"
  unfolding code_bits_def string_bits_def by (rule nth_equalityI) simp_all

lemma code_list_suffix:
  assumes "(ch, p @ s) \<in> set (code_list t (p @ [a]))"
  shows "\<exists>s'. s = a # s'"
proof -
  from code_list_prefix [OF assms] have "prefix (p @ [a]) (p @ s)" .
  then have "prefix [a] s" by simp
  then show ?thesis by (cases s) auto
qed

lemma decodeLoop_descend:
  assumes "dec < osz" and "readBit rd = Some (b, rd')"
    and "(if \<not> b then l else r) = Node c' f' l' r'" and "\<not> (l' = NULL \<and> r' = NULL)"
  shows "decodeLoop root osz (Node c f l r) rd dec out
         = decodeLoop root osz (Node c' f' l' r') rd' dec out"
proof (cases "l' = NULL")
  case True
  with assms show ?thesis by (subst decodeLoop.simps) simp
next
  case False
  with assms show ?thesis by (subst decodeLoop.simps) simp
qed

lemma decodeLoop_emit:
  assumes "dec < osz" and "readBit rd = Some (b, rd')"
    and "(if \<not> b then l else r) = Node c' f' NULL NULL" and "root \<noteq> NULL"
  shows "decodeLoop root osz (Node c f l r) rd dec out
         = decodeLoop root osz root rd' (dec + 1) (out @ [c'])"
  using assms by (subst decodeLoop.simps) simp

lemma decodeLoop_walk:
  assumes "root \<noteq> NULL" and "dec < osz"
  shows "(ch, p @ s) \<in> set (code_list (Node c f l r) p) \<Longrightarrow> \<not> (l = NULL \<and> r = NULL)
         \<Longrightarrow> stream rd = string_bits s @ rest
         \<Longrightarrow> \<exists>rd'. stream rd' = rest
                \<and> decodeLoop root osz (Node c f l r) rd dec out
                    = decodeLoop root osz root rd' (dec + 1) (out @ [ch])"
proof (induction "Node c f l r" arbitrary: c f l r p s rd)
  case (Node c f l r)
  from Node.prems(1,2) consider
      (left) "(ch, p @ s) \<in> set (code_list l (p @ ''0''))"
    | (right) "(ch, p @ s) \<in> set (code_list r (p @ ''1''))" by auto
  then show ?case
  proof cases
    case left
    then obtain c' f' l' r' where l: "l = Node c' f' l' r'" by (cases l) auto
    from code_list_suffix [OF left] obtain s' where s: "s = CHR ''0'' # s'" by blast
    with Node.prems(3) have "stream rd = False # (string_bits s' @ rest)"
      by (simp add: string_bits_def)
    from readBit_stream_Cons [OF this] obtain rd1
      where rd1: "readBit rd = Some (False, rd1)" "stream rd1 = string_bits s' @ rest" by blast
    show ?thesis
    proof (cases "l' = NULL \<and> r' = NULL")
      case True
      with left l s have cs: "ch = c'" "s' = []" by auto
      have "decodeLoop root osz (Node c f l r) rd dec out
            = decodeLoop root osz root rd1 (dec + 1) (out @ [c'])"
        using l True by (intro decodeLoop_emit [OF assms(2) rd1(1) _ assms(1)]) simp
      with rd1(2) cs show ?thesis
        by (intro exI [of _ rd1]) (simp add: string_bits_def)
    next
      case False
      from left s have "(ch, (p @ ''0'') @ s') \<in> set (code_list (Node c' f' l' r') (p @ ''0''))"
        by (simp add: l)
      from Node.hyps(1) [OF l this False rd1(2)] obtain rd'
        where rd': "stream rd' = rest"
          "decodeLoop root osz (Node c' f' l' r') rd1 dec out
             = decodeLoop root osz root rd' (dec + 1) (out @ [ch])" by blast
      have "decodeLoop root osz (Node c f l r) rd dec out
            = decodeLoop root osz (Node c' f' l' r') rd1 dec out"
        using l by (intro decodeLoop_descend [OF assms(2) rd1(1) _ False]) simp
      with rd' show ?thesis by (intro exI [of _ rd']) simp
    qed
  next
    case right
    then obtain c' f' l' r' where r: "r = Node c' f' l' r'" by (cases r) auto
    from code_list_suffix [OF right] obtain s' where s: "s = CHR ''1'' # s'" by blast
    with Node.prems(3) have "stream rd = True # (string_bits s' @ rest)"
      by (simp add: string_bits_def)
    from readBit_stream_Cons [OF this] obtain rd1
      where rd1: "readBit rd = Some (True, rd1)" "stream rd1 = string_bits s' @ rest" by blast
    show ?thesis
    proof (cases "l' = NULL \<and> r' = NULL")
      case True
      with right r s have cs: "ch = c'" "s' = []" by auto
      have "decodeLoop root osz (Node c f l r) rd dec out
            = decodeLoop root osz root rd1 (dec + 1) (out @ [c'])"
        using r True by (intro decodeLoop_emit [OF assms(2) rd1(1) _ assms(1)]) simp
      with rd1(2) cs show ?thesis
        by (intro exI [of _ rd1]) (simp add: string_bits_def)
    next
      case False
      from right s have "(ch, (p @ ''1'') @ s') \<in> set (code_list (Node c' f' l' r') (p @ ''1''))"
        by (simp add: r)
      from Node.hyps(2) [OF r this False rd1(2)] obtain rd'
        where rd': "stream rd' = rest"
          "decodeLoop root osz (Node c' f' l' r') rd1 dec out
             = decodeLoop root osz root rd' (dec + 1) (out @ [ch])" by blast
      have "decodeLoop root osz (Node c f l r) rd dec out
            = decodeLoop root osz (Node c' f' l' r') rd1 dec out"
        using r by (intro decodeLoop_descend [OF assms(2) rd1(1) _ False]) simp
      with rd' show ?thesis by (intro exI [of _ rd']) simp
    qed
  qed
qed

lemma decodeLoop_symbols:
  assumes "\<not> (l = NULL \<and> r = NULL)"
    and "\<forall>ch\<in>set x. (ch, cb ch) \<in> set (code_list (Node c f l r) [])"
  shows "stream rd = concat (map (\<lambda>ch. string_bits (cb ch)) x) @ rest
         \<Longrightarrow> unat dec + length x = unat osz
         \<Longrightarrow> decodeLoop (Node c f l r) osz (Node c f l r) rd dec out = (SizeReached, out @ x)"
  using assms(2)
proof (induction x arbitrary: rd dec out)
  case Nil
  then have "\<not> dec < osz" by (simp add: word_less_nat_alt)
  then show ?case by (subst decodeLoop.simps) simp
next
  case (Cons ch x)
  from Cons.prems(2) have lt: "dec < osz" by (simp add: word_less_nat_alt)
  from Cons.prems(3) have mem: "(ch, [] @ cb ch) \<in> set (code_list (Node c f l r) [])"
    by simp
  have st: "stream rd = string_bits (cb ch) @ (concat (map (\<lambda>ch. string_bits (cb ch)) x) @ rest)"
    using Cons.prems(1) by simp
  have nn: "Node c f l r \<noteq> NULL" by simp
  from decodeLoop_walk [OF nn lt mem assms(1) st]
  obtain rd' where rd': "stream rd' = concat (map (\<lambda>ch. string_bits (cb ch)) x) @ rest"
    "decodeLoop (Node c f l r) osz (Node c f l r) rd dec out
       = decodeLoop (Node c f l r) osz (Node c f l r) rd' (dec + 1) (out @ [ch])"
    by blast
  have "unat (dec + 1) + length x = unat osz"
    using unat_inc_less [OF lt] Cons.prems(2) by simp
  moreover have "\<forall>ch\<in>set x. (ch, cb ch) \<in> set (code_list (Node c f l r) [])"
    using Cons.prems(3) by simp
  ultimately have "decodeLoop (Node c f l r) osz (Node c f l r) rd' (dec + 1) (out @ [ch])
                   = (SizeReached, (out @ [ch]) @ x)"
    by (intro Cons.IH [OF rd'(1)])
  then have "decodeLoop (Node c f l r) osz (Node c f l r) rd dec out
             = (SizeReached, (out @ [ch]) @ x)"
    by (rule trans [OF rd'(2)])
  then show ?case by (simp only: append_assoc append_Cons append_Nil)
qed

lemma unat_of_nat_u32: "n < 2 ^ 32 \<Longrightarrow> unat (of_nat n :: u32) = n"
  by (simp add: unat_of_nat)

lemma of_nat_u32_eq_0:
  assumes "n < 2 ^ 32"
  shows "(of_nat n :: u32) = 0 \<longleftrightarrow> n = 0"
proof
  assume "(of_nat n :: u32) = 0"
  then have "unat (of_nat n :: u32) = 0" by simp
  with unat_of_nat_u32 [OF assms] show "n = 0" by simp
next
  assume "n = 0"
  then show "(of_nat n :: u32) = 0" by simp
qed


lemma sint_of_nat_u32:
  assumes "n < 2 ^ 31"
  shows "sint (of_nat n :: u32) = int n"
proof -
  have "- (2 ^ 31) \<le> int n" by simp
  moreover from assms have "int n < int (2 ^ 31)" by (simp only: of_nat_less_iff)
  then have "int n < 2 ^ 31" by simp
  ultimately have "signed_take_bit 31 (int n) = int n" by (rule signed_take_bit_int_eq_self)
  then show ?thesis by (simp add: signed_of_nat)
qed

lemma sint_2p31: "sint (of_nat (2 ^ 31) :: u32) < 0"
  by simp

lemma of_nat_2p32: "(of_nat (2 ^ 32) :: u32) = 0"
  by simp

lemma countLoop_counts:
  "countLoop x (f, n) = (\<lambda>c. f c + of_nat (count_list x c), n + of_nat (length x))"
proof (induction x arbitrary: f n)
  case Nil
  then show ?case by simp
next
  case (Cons a x)
  show ?case by (simp add: Cons fun_eq_iff)
qed

lemma calculateFrequencies_counts:
  "calculateFrequencies x =
     (if (of_nat (length x) :: u32) = 0 then Inl EmptyInput
      else Inr (\<lambda>c. of_nat (count_list x c), of_nat (length x)))"
  by (simp add: calculateFrequencies_def countLoop_counts)

lemma count_positive:
  assumes "length x < 2 ^ 32"
  shows "(of_nat (count_list x c) :: u32) \<noteq> 0 \<longleftrightarrow> c \<in> set x"
proof -
  have "count_list x c \<le> length x" by (rule count_le_length)
  with assms have "count_list x c < 2 ^ 32" by simp
  then have "(of_nat (count_list x c) :: u32) = 0 \<longleftrightarrow> count_list x c = 0"
    by (rule of_nat_u32_eq_0)
  then show ?thesis by (simp add: count_list_0_iff)
qed

lemma foldl_count_u32:
  "foldl (\<lambda>n i. if f (of_nat i) > (0 :: u32) then n + 1 else n) (n0 :: u32) ns
   = n0 + of_nat (length (filter (\<lambda>c. f c > 0) (map of_nat ns :: byte list)))"
  by (induction ns arbitrary: n0) auto

lemma frequencyCount_countUnique:
  "foldl (\<lambda>n i. if f (of_nat i) > (0 :: u32) then n + 1 else n) (0 :: u32) [0..<ASCII_SIZE]
   = of_nat (countUnique f)"
  by (simp add: foldl_count_u32 countUnique_present symbols_present_def)

lemma countUnique_le: "countUnique f \<le> 256"
proof -
  have "length (symbols_present f) \<le> length (map of_nat [0..<ASCII_SIZE] :: byte list)"
    unfolding symbols_present_def by (rule length_filter_le)
  then show ?thesis by (simp add: countUnique_present ASCII_SIZE_def)
qed

lemma rewriteFileHeader_header:
  "rewriteFileHeader (header_bytes h @ rest) h' = header_bytes h' @ rest"
  by (simp add: rewriteFileHeader_def)

lemma compressFile_archive:
  assumes "calculateFrequencies x = Inr (f, n)" and "\<not> sint n < 0"
    and "buildHuffmanTree f \<noteq> NULL" and "n = of_nat (length x)"
  shows "compressFile x = (Inr (), Some (archive_of x f))"
proof -
  let ?codes = "buildCodeTable (buildHuffmanTree f)"
  let ?h = "\<lparr>magic = MAGIC_NUMBER, original_size = n, compressed_size = 0,
             frequency_count = of_nat (countUnique f), padding_bits = 0\<rparr>"
  let ?payload = "encodeAndWrite x [] ?codes"
  let ?front = "writeFrequencies (writeFileHeader [] ?h) f"
  have front: "?front = header_bytes ?h @ writeFrequencies [] f"
    by (simp add: writeFileHeader_def writeFrequencies_entries)
  have enc: "encodeAndWrite x ?front ?codes = ?front @ ?payload"
    by (rule encodeAndWrite_prepend)
  have "compressFile x
        = (Inr (), Some (rewriteFileHeader (encodeAndWrite x ?front ?codes)
             (?h\<lparr>compressed_size := of_nat (length (encodeAndWrite x ?front ?codes)
                                                - length ?front)\<rparr>)))"
    using assms(1-3) by (simp add: compressFile_def Let_def frequencyCount_countUnique)
  also have "rewriteFileHeader (encodeAndWrite x ?front ?codes)
             (?h\<lparr>compressed_size := of_nat (length (encodeAndWrite x ?front ?codes)
                                                - length ?front)\<rparr>)
             = archive_of x f"
    unfolding enc unfolding front
    by (simp add: rewriteFileHeader_header archive_of_def Let_def assms(4))
  finally show ?thesis .
qed

lemma readFrequencies_written:
  "readFrequencies (writeFrequencies [] f @ rest) (int (countUnique f)) = Inr (f, rest)"
proof -
  have "(\<lambda>c. if c \<in> set (symbols_present f) then f c else 0) = f"
    by (auto simp: set_symbols_present)
  then show ?thesis
    by (simp add: readFrequencies_def writeFrequencies_entries countUnique_present
          readFreqLoop_entries)
qed

lemma tree_decodable:
  assumes "symbols_present f \<noteq> []"
  shows "\<exists>c0 f0 l r. buildHuffmanTree f = Node c0 f0 l r \<and> \<not> (l = NULL \<and> r = NULL)
           \<and> distinct (leaf_chars (Node c0 f0 l r))
           \<and> set (leaf_chars (Node c0 f0 l r)) = set (symbols_present f)"
proof (cases "length (symbols_present f) = 1")
  case True
  then obtain c where c: "symbols_present f = [c]"
    by (cases "symbols_present f") auto
  from buildHuffmanTree_single [OF c] c show ?thesis by simp
next
  case False
  moreover from assms have "length (symbols_present f) \<noteq> 0" by simp
  ultimately have two: "2 \<le> countUnique f"
    unfolding countUnique_present by linarith
  from buildHuffmanTree_general [OF two]
  have full: "full_tree (buildHuffmanTree f)"
    and ms: "mset (leaf_chars (buildHuffmanTree f)) = mset (symbols_present f)" by auto
  from full obtain c0 f0 l r where t: "buildHuffmanTree f = Node c0 f0 l r"
    by (cases "buildHuffmanTree f") auto
  from ms have "length (leaf_chars (buildHuffmanTree f)) = length (symbols_present f)"
    by (rule mset_eq_length)
  with two t have inner: "\<not> (l = NULL \<and> r = NULL)" by (auto simp: countUnique_present)
  have "distinct (leaf_chars (buildHuffmanTree f))"
    using distinct_symbols_present [of f] by (simp add: mset_eq_imp_distinct_iff [OF ms])
  moreover have "set (leaf_chars (buildHuffmanTree f)) = set (symbols_present f)"
    using ms by (rule mset_eq_setD)
  ultimately show ?thesis using inner unfolding t by blast
qed

lemma code_table_entry:
  assumes "\<not> (l = NULL \<and> r = NULL)" and "distinct (leaf_chars (Node c0 f0 l r))"
    and "ch \<in> set (leaf_chars (Node c0 f0 l r))"
  shows "\<exists>s. (ch, s) \<in> set (code_list (Node c0 f0 l r) [])
             \<and> buildCodeTable (Node c0 f0 l r) ch = \<lparr>code = s, clength = length s\<rparr>"
proof -
  let ?cl = "code_list (Node c0 f0 l r) []"
  have m: "map fst ?cl = leaf_chars (Node c0 f0 l r)" by (rule map_fst_code_list)
  with assms(3) have "ch \<in> fst ` set ?cl" by (metis set_map)
  then obtain s where s: "(ch, s) \<in> set ?cl" by force
  from assms(2) m have "distinct (map fst ?cl)" by simp
  from store_codes_distinct [OF this s] buildCodeTable_inner [OF assms(1)] s
  show ?thesis by auto
qed

lemma stream_start: "stream (payload, 0, 0) = concat (map byte_bits payload)"
  by (simp add: stream_def)

lemma decode_encoded:
  assumes "symbols_present f \<noteq> []" and "\<forall>ch\<in>set x. f ch \<noteq> 0" and "length x < 2 ^ 32"
  shows "decodeAndWrite (encodeAndWrite x [] (buildCodeTable (buildHuffmanTree f))) []
           (buildHuffmanTree f) (of_nat (length x)) paddingBits = (SizeReached, x)"
proof -
  from tree_decodable [OF assms(1)] obtain c0 f0 l r
    where t: "buildHuffmanTree f = Node c0 f0 l r" and inner: "\<not> (l = NULL \<and> r = NULL)"
      and dist: "distinct (leaf_chars (Node c0 f0 l r))"
      and chars: "set (leaf_chars (Node c0 f0 l r)) = set (symbols_present f)"
    by blast
  let ?t = "Node c0 f0 l r"
  let ?codes = "buildCodeTable ?t"
  let ?cb = "\<lambda>ch. code (?codes ch)"
  have entry: "(ch, ?cb ch) \<in> set (code_list ?t []) \<and> code_bits (?codes ch) = string_bits (?cb ch)"
    if "ch \<in> set x" for ch
  proof -
    from that assms(2) chars have "ch \<in> set (leaf_chars ?t)"
      by (simp add: set_symbols_present)
    from code_table_entry [OF inner dist this] obtain s
      where "(ch, s) \<in> set (code_list ?t [])" "?codes ch = \<lparr>code = s, clength = length s\<rparr>"
      by blast
    then show ?thesis by (simp add: code_bits_stored)
  qed
  from encodeAndWrite_bits [of x ?codes] obtain k
    where "concat (map byte_bits (encodeAndWrite x [] ?codes))
           = concat (map (\<lambda>ch. code_bits (?codes ch)) x) @ replicate k False"
    by blast
  moreover have "map (\<lambda>ch. code_bits (?codes ch)) x = map (\<lambda>ch. string_bits (?cb ch)) x"
    using entry by (intro map_cong refl) simp
  ultimately have st: "stream (encodeAndWrite x [] ?codes, 0, 0)
                       = concat (map (\<lambda>ch. string_bits (?cb ch)) x) @ replicate k False"
    by (simp only: stream_start)
  have mem: "\<forall>ch\<in>set x. (ch, ?cb ch) \<in> set (code_list ?t [])" using entry by blast
  have len: "unat (0 :: u32) + length x = unat (of_nat (length x) :: u32)"
    using unat_of_nat_u32 [OF assms(3)] by simp
  from decodeLoop_symbols [OF inner mem st len, of "[]"] show ?thesis
    unfolding t by (simp add: decodeAndWrite_def)
qed

lemma decompressFile_steps:
  assumes "readFileHeader inputFile = Inr (header, inFile)"
    and "readFrequencies inFile (sint (frequency_count header)) = Inr (frequencies, payload)"
    and "buildHuffmanTree frequencies \<noteq> NULL"
    and "decodeAndWrite payload [] (buildHuffmanTree frequencies) (original_size header)
           (uint (padding_bits header)) = (SizeReached, outFile)"
  shows "decompressFile inputFile = (Inr SizeReached, Some outFile)"
  using assms by (simp add: decompressFile_def)

lemma decompress_archive:
  assumes "symbols_present f \<noteq> []" and "\<forall>ch\<in>set x. f ch \<noteq> 0" and "length x < 2 ^ 32"
  shows "decompressFile (archive_of x f) = (Inr SizeReached, Some x)"
proof -
  let ?payload = "encodeAndWrite x [] (buildCodeTable (buildHuffmanTree f))"
  let ?h = "\<lparr>magic = MAGIC_NUMBER, original_size = of_nat (length x),
             compressed_size = of_nat (length ?payload),
             frequency_count = of_nat (countUnique f), padding_bits = 0\<rparr>"
  have a: "archive_of x f = header_bytes ?h @ (writeFrequencies [] f @ ?payload)"
    by (simp add: archive_of_def Let_def)
  have h: "readFileHeader (archive_of x f) = Inr (?h, writeFrequencies [] f @ ?payload)"
    unfolding a by (simp add: readFileHeader_header_bytes)
  have "countUnique f < 2 ^ 31" using countUnique_le [of f] by simp
  then have "sint (of_nat (countUnique f) :: u32) = int (countUnique f)"
    by (rule sint_of_nat_u32)
  then have fr: "readFrequencies (writeFrequencies [] f @ ?payload) (sint (frequency_count ?h))
                 = Inr (f, ?payload)"
    by (simp add: readFrequencies_written)
  from tree_decodable [OF assms(1)] have nn: "buildHuffmanTree f \<noteq> NULL" by auto
  have d: "decodeAndWrite ?payload [] (buildHuffmanTree f) (original_size ?h)
             (uint (padding_bits ?h)) = (SizeReached, x)"
    using decode_encoded [OF assms] by simp
  from h fr nn d show ?thesis by (rule decompressFile_steps)
qed

lemma count_list_replicate: "count_list (replicate n c) c' = (if c = c' then n else 0)"
  by (induction n) auto

lemma calculateFrequencies_replicate:
  "calculateFrequencies (replicate n c) =
     (if (of_nat n :: u32) = 0 then Inl EmptyInput
      else Inr ((\<lambda>_. 0)(c := of_nat n), of_nat n))"
proof -
  have "(\<lambda>c'. of_nat (count_list (replicate n c) c') :: u32) = (\<lambda>_. 0)(c := of_nat n)"
    by (auto simp: count_list_replicate)
  then show ?thesis by (simp add: calculateFrequencies_counts)
qed

lemma compressFile_negative_size:
  assumes "(of_nat n :: u32) \<noteq> 0" and "sint (of_nat n :: u32) < 0"
  shows "compressFile (replicate n c) = (Inl NegativeSize, None)"
  using assms by (simp add: compressFile_def calculateFrequencies_replicate)

lemma compressFile_wrapped_size:
  assumes "(of_nat n :: u32) = 0"
  shows "compressFile (replicate n c) = (Inl EmptyInput, None)"
  using assms by (simp add: compressFile_def calculateFrequencies_replicate)

section \<open>The code buffer\<close>

text \<open>
  \<^verbatim>\<open>char code[MAX_CODE_LENGTH]\<close> and the buffer \<^verbatim>\<open>currentCode\<close> of \<open>buildCodeTable\<close> have room for 255
  characters and the terminating NUL.  A tree built from a frequency table has at most 256
  leaves, so none of its codes is longer than that, and the unbounded strings of
  \<open>generateCodes\<close> are the strings of the program.
\<close>

lemma code_list_length:
  "full_tree t \<Longrightarrow> (c, s) \<in> set (code_list t p)
   \<Longrightarrow> length s < length p + length (leaf_chars t)"
proof (induction t arbitrary: p)
  case NULL
  then show ?case by simp
next
  case (Node c' f l r)
  show ?case
  proof (cases "l = NULL \<and> r = NULL")
    case True
    with Node.prems show ?thesis by simp
  next
    case False
    with Node.prems(1) have fl: "full_tree l" and fr: "full_tree r" by auto
    from full_tree_leaf_chars_ne [OF fl] full_tree_leaf_chars_ne [OF fr]
    have ne: "1 \<le> length (leaf_chars l)" "1 \<le> length (leaf_chars r)"
      by (simp_all add: Suc_le_eq)
    from False have sum: "length (leaf_chars (Node c' f l r))
                          = length (leaf_chars l) + length (leaf_chars r)" by simp
    from False Node.prems(2) consider
        (l) "(c, s) \<in> set (code_list l (p @ ''0''))"
      | (r) "(c, s) \<in> set (code_list r (p @ ''1''))" by auto
    then show ?thesis
    proof cases
      case l
      from Node.IH(1) [OF fl l] have "length s < length (p @ ''0'') + length (leaf_chars l)" .
      with ne show ?thesis unfolding sum by simp
    next
      case r
      from Node.IH(2) [OF fr r] have "length s < length (p @ ''1'') + length (leaf_chars r)" .
      with ne show ?thesis unfolding sum by simp
    qed
  qed
qed

lemma code_fits_buffer:
  "length (code (buildCodeTable (buildHuffmanTree f) c)) < 256
   \<and> clength (buildCodeTable (buildHuffmanTree f) c)
       = length (code (buildCodeTable (buildHuffmanTree f) c))"
proof -
  let ?t = "buildHuffmanTree f"
  consider (none) "countUnique f = 0" | (one) "countUnique f = 1" | (more) "2 \<le> countUnique f"
    by linarith
  then show ?thesis
  proof cases
    case none
    then show ?thesis by (simp add: buildHuffmanTree_none buildCodeTable_def)
  next
    case one
    then obtain x where "symbols_present f = [x]"
      unfolding countUnique_present by (cases "symbols_present f") auto
    from buildHuffmanTree_single [OF this] show ?thesis
      by (simp add: buildCodeTable_def)
  next
    case more
    from buildHuffmanTree_general [OF more]
    have full: "full_tree ?t" and ms: "mset (leaf_chars ?t) = mset (symbols_present f)"
      by auto
    from ms have len: "length (leaf_chars ?t) = countUnique f"
      unfolding countUnique_present by (rule mset_eq_length)
    from full obtain c0 f0 l r where t: "?t = Node c0 f0 l r" by (cases ?t) auto
    have inner: "\<not> (l = NULL \<and> r = NULL)" using len more t by auto
    let ?cl = "code_list ?t []"
    have table: "buildCodeTable ?t = store_codes (\<lambda>_. \<lparr>code = [], clength = 0\<rparr>) ?cl"
      unfolding t using inner by (rule buildCodeTable_inner)
    have dist: "distinct (map fst ?cl)"
      using distinct_symbols_present [of f]
      by (simp add: map_fst_code_list mset_eq_imp_distinct_iff [OF ms])
    show ?thesis
    proof (cases "c \<in> fst ` set ?cl")
      case True
      then obtain s where s: "(c, s) \<in> set ?cl" by force
      from code_list_length [OF full s] len countUnique_le [of f]
      have "length s < 256" by simp
      with store_codes_distinct [OF dist s] table show ?thesis by simp
    next
      case False
      from store_codes_other [OF False] table show ?thesis by simp
    qed
  qed
qed

section \<open>Round trip\<close>

text \<open>
  Claim C1, as amended.  For every non-empty input of fewer than \<open>2 ^ 31\<close> bytes,
  \<open>compressFile\<close> succeeds and \<open>decompressFile\<close> applied to the archive it wrote succeeds and
  writes exactly the input, byte for byte.
\<close>

theorem compress_decompress_roundtrip:
  assumes "x \<noteq> []" and "length x < 2 ^ 31"
  shows "\<exists>archive. compressFile x = (Inr (), Some archive)
                   \<and> decompressFile archive = (Inr SizeReached, Some x)"
proof -
  let ?f = "\<lambda>c. of_nat (count_list x c) :: u32"
  let ?n = "of_nat (length x) :: u32"
  from assms(2) have len32: "length x < 2 ^ 32" by simp
  from assms(1) have "length x \<noteq> 0" by simp
  with of_nat_u32_eq_0 [OF len32] have "?n \<noteq> 0" by simp
  then have cf: "calculateFrequencies x = Inr (?f, ?n)"
    by (simp add: calculateFrequencies_counts)
  have nonneg: "\<not> sint ?n < 0" using sint_of_nat_u32 [OF assms(2)] by simp
  have present: "\<forall>ch\<in>set x. ?f ch \<noteq> 0" using count_positive [OF len32] by simp
  from assms(1) obtain a where "a \<in> set x" by (cases x) auto
  with present have "a \<in> set (symbols_present ?f)" by (simp add: set_symbols_present)
  then have ne: "symbols_present ?f \<noteq> []" by auto
  from tree_decodable [OF ne] have nn: "buildHuffmanTree ?f \<noteq> NULL" by auto
  from compressFile_archive [OF cf nonneg nn refl] decompress_archive [OF ne present len32]
  show ?thesis by blast
qed

theorem compress_decompress_roundtrip_witness:
  "[65, 65, 66, 66, 66, 67, 67, 67, 67 :: byte] \<noteq> []
   \<and> length [65, 65, 66, 66, 66, 67, 67, 67, 67 :: byte] < 2 ^ 31
   \<and> compressFile [65, 65, 66, 66, 66, 67, 67, 67, 67] =
       (Inr (), Some [70, 70, 85, 72, 9, 0, 0, 0, 2, 0, 0, 0, 3, 0, 0, 0, 0,
                      65, 2, 0, 0, 0, 66, 3, 0, 0, 0, 67, 4, 0, 0, 0, 175, 192])
   \<and> decompressFile [70, 70, 85, 72, 9, 0, 0, 0, 2, 0, 0, 0, 3, 0, 0, 0, 0,
                       65, 2, 0, 0, 0, 66, 3, 0, 0, 0, 67, 4, 0, 0, 0, 175, 192]
       = (Inr SizeReached, Some [65, 65, 66, 66, 66, 67, 67, 67, 67])"
proof -
  have h: "[65, 65, 66, 66, 66, 67, 67, 67, 67 :: byte] \<noteq> []"
    "length [65, 65, 66, 66, 66, 67, 67, 67, 67 :: byte] < 2 ^ 31"
    by simp_all
  have c: "compressFile [65, 65, 66, 66, 66, 67, 67, 67, 67] =
       (Inr (), Some [70, 70, 85, 72, 9, 0, 0, 0, 2, 0, 0, 0, 3, 0, 0, 0, 0,
                      65, 2, 0, 0, 0, 66, 3, 0, 0, 0, 67, 4, 0, 0, 0, 175, 192])"
    by code_simp
  from compress_decompress_roundtrip [OF h] obtain archive
    where a: "compressFile [65, 65, 66, 66, 66, 67, 67, 67, 67] = (Inr (), Some archive)"
      "decompressFile archive = (Inr SizeReached, Some [65, 65, 66, 66, 66, 67, 67, 67, 67])"
    by blast
  from a(1) c have "archive = [70, 70, 85, 72, 9, 0, 0, 0, 2, 0, 0, 0, 3, 0, 0, 0, 0,
                      65, 2, 0, 0, 0, 66, 3, 0, 0, 0, 67, 4, 0, 0, 0, 175, 192]"
    by simp
  with a(2) h c show ?thesis by simp
qed

text \<open>
  Claim C1, as stated for every non-empty input, fails at \<open>2 ^ 31\<close> bytes: the file size is
  counted in \<^verbatim>\<open>int fileSize\<close>, which has wrapped to a negative value when
  \<open>calculateFrequencies\<close> returns it, and \<open>compressFile\<close> takes the negative value for the error
  return and writes no archive.
\<close>

theorem roundtrip_counterexample:
  "replicate (2 ^ 31) (65 :: byte) \<noteq> []
   \<and> compressFile (replicate (2 ^ 31) 65) = (Inl NegativeSize, None)"
proof
  show "replicate (2 ^ 31) (65 :: byte) \<noteq> []" by simp
  have "(of_nat (2 ^ 31) :: u32) \<noteq> 0" by simp
  moreover have "sint (of_nat (2 ^ 31) :: u32) < 0" by simp
  ultimately show "compressFile (replicate (2 ^ 31) 65) = (Inl NegativeSize, None)"
    by (rule compressFile_negative_size)
qed

section \<open>Single-symbol input\<close>

lemma byte_bits_zero:
  assumes "byte_bits b = replicate 8 False"
  shows "b = 0"
proof (rule bit_word_eqI)
  fix n assume "n < LENGTH(8)"
  then have n: "n \<in> set (rev [0..<8])" by simp
  from assms have "\<forall>v\<in>set (map (bit b) (rev [0..<8])). v = False"
    unfolding byte_bits_def by (metis in_set_replicate)
  with n have "\<not> bit b n" by (metis (no_types, lifting) image_eqI set_map)
  then show "bit b n = bit (0 :: byte) n" by simp
qed

lemma zero_bytes:
  "concat (map byte_bits bs) = replicate m False \<Longrightarrow> bs = replicate (length bs) 0"
proof (induction bs arbitrary: m)
  case Nil
  then show ?case by simp
next
  case (Cons b bs)
  from Cons.prems have e: "byte_bits b @ concat (map byte_bits bs) = replicate m False" by simp
  then have "byte_bits b = take 8 (replicate m False)"
    and r: "concat (map byte_bits bs) = drop 8 (replicate m False)"
    by (simp_all add: append_eq_conv_conj)
  then have "byte_bits b = replicate (min 8 m) False" by simp
  moreover from this have "min 8 m = 8" using length_byte_bits [of b] by (metis length_replicate)
  ultimately have "b = 0" using byte_bits_zero by simp
  moreover from r have "bs = replicate (length bs) 0" using Cons.IH [of "m - 8"] by simp
  ultimately show ?case by simp
qed

lemma symbols_present_single:
  assumes "v \<noteq> 0"
  shows "symbols_present ((\<lambda>_. 0)(c := v)) = [c]"
proof -
  have d: "distinct (map of_nat [0..<ASCII_SIZE] :: byte list)"
    using symbols_ascending by (simp add: strict_sorted_iff)
  have "filter (\<lambda>x. x = c) xs = [c]" if "distinct xs" "c \<in> set xs" for xs :: "byte list"
    using that by (induction xs) (auto simp: filter_empty_conv)
  from this [OF d byte_in_symbols]
  have "filter (\<lambda>x. x = c) (map of_nat [0..<ASCII_SIZE]) = [c]" .
  moreover have "(\<lambda>x. ((\<lambda>_. 0)(c := v)) x > 0) = (\<lambda>x. x = c)"
    using assms by (auto simp: word_greater_zero_iff)
  ultimately show ?thesis by (simp add: symbols_present_def)
qed

lemma single_tree:
  assumes "v \<noteq> 0"
  shows "buildHuffmanTree ((\<lambda>_. 0)(c := v)) = Node 0 v (Node c v NULL NULL) NULL"
  using buildHuffmanTree_single [OF symbols_present_single [OF assms, of c]] by simp

lemma single_codes:
  "buildCodeTable (Node 0 v (Node c v NULL NULL) NULL)
   = (\<lambda>_. \<lparr>code = [], clength = 0\<rparr>)(c := \<lparr>code = ''0'', clength = 1\<rparr>)"
  by (simp add: buildCodeTable_def)

lemma concat_replicate_single: "concat (replicate n [a]) = replicate n a"
  by (induction n) simp_all

lemma single_payload:
  "encodeAndWrite (replicate N c) []
     ((\<lambda>_. \<lparr>code = [], clength = 0\<rparr>)(c := \<lparr>code = ''0'', clength = 1\<rparr>))
   = replicate ((N + 7) div 8) 0"
proof -
  let ?codes = "(\<lambda>_. \<lparr>code = [], clength = 0\<rparr>)(c := \<lparr>code = ''0'', clength = 1\<rparr>)"
  let ?p = "encodeAndWrite (replicate N c) [] ?codes"
  from encodeAndWrite_bits [of "replicate N c" ?codes] obtain k where k: "k < 8"
    and b: "concat (map byte_bits ?p)
            = concat (map (\<lambda>ch. code_bits (?codes ch)) (replicate N c)) @ replicate k False"
    by blast
  have "code_bits (?codes c) = [False]" by (simp add: code_bits_def)
  then have "map (\<lambda>ch. code_bits (?codes ch)) (replicate N c) = replicate N [False]"
    by (simp only: map_replicate)
  then have "concat (map (\<lambda>ch. code_bits (?codes ch)) (replicate N c)) = replicate N False"
    by (simp only: concat_replicate_single)
  with b have bits: "concat (map byte_bits ?p) = replicate (N + k) False"
    by (simp only: replicate_add)
  then have "length (concat (map byte_bits ?p)) = N + k" by simp
  then have "8 * length ?p = N + k" by simp
  with k have "8 * length ?p \<le> N + 7" and "N + 7 < 8 * Suc (length ?p)" by simp_all
  then have "(N + 7) div 8 = length ?p" by (rule div_nat_eqI)
  with zero_bytes [OF bits] show ?thesis by (simp only:)
qed

text \<open>
  Claim C6, as amended.  For \<open>1 \<le> N < 2 ^ 31\<close> and every byte \<open>c\<close>, compressing \<open>N\<close>
  repetitions of \<open>c\<close> writes a header with symbol count 1 (original size \<open>N\<close>, compressed size
  \<open>\<lceil>N / 8\<rceil>\<close>), the single frequency record of \<open>c\<close>, and a payload of exactly
  \<open>\<lceil>N / 8\<rceil>\<close> bytes, all zero; the code table gives \<open>c\<close> the code "0" of length 1.
\<close>

theorem single_symbol_archive:
  assumes "0 < N" and "N < 2 ^ 31"
  shows "compressFile (replicate N c) =
           (Inr (), Some (header_bytes \<lparr>magic = MAGIC_NUMBER, original_size = of_nat N,
                                        compressed_size = of_nat ((N + 7) div 8),
                                        frequency_count = 1, padding_bits = 0\<rparr>
                          @ [c] @ u32_bytes (of_nat N) @ replicate ((N + 7) div 8) 0))
         \<and> calculateFrequencies (replicate N c) = Inr ((\<lambda>_. 0)(c := of_nat N), of_nat N)
         \<and> buildCodeTable (buildHuffmanTree ((\<lambda>_. 0)(c := of_nat N))) c
             = \<lparr>code = ''0'', clength = 1\<rparr>"
proof -
  let ?v = "of_nat N :: u32"
  let ?f = "(\<lambda>_. 0)(c := ?v) :: freq_table"
  from assms(2) have n32: "N < 2 ^ 32" by simp
  with assms(1) of_nat_u32_eq_0 [OF n32] have v: "?v \<noteq> 0" by simp
  then have cf: "calculateFrequencies (replicate N c) = Inr (?f, ?v)"
    by (simp add: calculateFrequencies_replicate)
  have nonneg: "\<not> sint ?v < 0" using sint_of_nat_u32 [OF assms(2)] by simp
  have t: "buildHuffmanTree ?f = Node 0 ?v (Node c ?v NULL NULL) NULL"
    using v by (rule single_tree)
  then have nn: "buildHuffmanTree ?f \<noteq> NULL" by simp
  have sp: "symbols_present ?f = [c]" using v by (rule symbols_present_single)
  have cu: "countUnique ?f = 1" by (simp add: countUnique_present sp)
  have wf: "writeFrequencies [] ?f = [c] @ u32_bytes ?v"
    by (simp add: writeFrequencies_entries sp)
  have "archive_of (replicate N c) ?f
        = header_bytes \<lparr>magic = MAGIC_NUMBER, original_size = of_nat N,
                        compressed_size = of_nat ((N + 7) div 8),
                        frequency_count = 1, padding_bits = 0\<rparr>
          @ [c] @ u32_bytes (of_nat N) @ replicate ((N + 7) div 8) 0"
    unfolding archive_of_def t single_codes single_payload wf cu
    by (simp add: Let_def)
  with compressFile_archive [OF cf nonneg nn] cf t single_codes [of ?v c] show ?thesis by simp
qed

theorem single_symbol_archive_witness:
  "(0 :: nat) < 8 \<and> (8 :: nat) < 2 ^ 31
   \<and> compressFile (replicate 8 65) =
       (Inr (), Some (header_bytes \<lparr>magic = MAGIC_NUMBER, original_size = 8,
                                    compressed_size = 1, frequency_count = 1,
                                    padding_bits = 0\<rparr> @ [65, 8, 0, 0, 0] @ [0]))
   \<and> buildCodeTable (buildHuffmanTree ((\<lambda>_. 0)(65 := 8))) 65 = \<lparr>code = ''0'', clength = 1\<rparr>"
proof -
  have h: "(0 :: nat) < 8" "(8 :: nat) < 2 ^ 31" by simp_all
  have u: "u32_bytes 8 = [8, 0, 0, 0]" by (simp add: u32_bytes_def)
  have r: "replicate ((8 + 7) div 8) (0 :: byte) = [0]" by simp
  from single_symbol_archive [OF h, of 65] h u r show ?thesis by simp
qed

text \<open>
  Claim C6, as stated for every \<open>N \<ge> 1\<close>, fails at \<open>N = 2 ^ 32\<close>: the 32-bit byte counter
  has wrapped to 0, \<open>calculateFrequencies\<close> reports an empty file and nothing is written.
\<close>

theorem single_symbol_counterexample:
  "(1 :: nat) \<le> 2 ^ 32 \<and> compressFile (replicate (2 ^ 32) 0) = (Inl EmptyInput, None)"
proof
  show "(1 :: nat) \<le> 2 ^ 32" by simp
  have "(of_nat (2 ^ 32) :: u32) = 0" by simp
  then show "compressFile (replicate (2 ^ 32) 0) = (Inl EmptyInput, None)"
    by (rule compressFile_wrapped_size)
qed

end
